theory Spec2Isabelle
  imports Complex_Main
begin

unbundle bit_operations_syntax

section \<open>Numbers of the source language\<close>

text \<open>
  The library computes with JavaScript numbers and stores samples in \<open>Float32Array\<close>s.
  The embedding keeps the special values that decide control flow (\<open>NaN\<close>, the two
  infinities) and idealises every finite number as a real: rounding to 64 or 32 bits is
  not modelled. Reading a typed array outside its bounds yields \<open>undefined\<close>, which every
  arithmetic operation and every store into a \<open>Float32Array\<close> turns into \<open>NaN\<close>; such a
  read is therefore modelled as \<open>NaN\<close>. A zero divisor is taken as \<open>+0\<close>: the divisors of
  this program that can be zero are lengths, counters and multiples of a peak's
  frequency.
\<close>

datatype jsnum = Num real | PInf | NInf | NaN

datatype error = RangeError | IndexSizeError | NoReturn

fun jneg :: "jsnum \<Rightarrow> jsnum" where
  "jneg (Num a) = Num (- a)"
| "jneg PInf = NInf"
| "jneg NInf = PInf"
| "jneg NaN = NaN"

fun jadd :: "jsnum \<Rightarrow> jsnum \<Rightarrow> jsnum" where
  "jadd (Num a) (Num b) = Num (a + b)"
| "jadd NaN _ = NaN"
| "jadd _ NaN = NaN"
| "jadd PInf NInf = NaN"
| "jadd NInf PInf = NaN"
| "jadd PInf _ = PInf"
| "jadd _ PInf = PInf"
| "jadd NInf _ = NInf"
| "jadd _ NInf = NInf"

definition jsub :: "jsnum \<Rightarrow> jsnum \<Rightarrow> jsnum" where
  "jsub a b = jadd a (jneg b)"

fun jmul :: "jsnum \<Rightarrow> jsnum \<Rightarrow> jsnum" where
  "jmul (Num a) (Num b) = Num (a * b)"
| "jmul NaN _ = NaN"
| "jmul _ NaN = NaN"
| "jmul PInf (Num b) = (if 0 < b then PInf else if b < 0 then NInf else NaN)"
| "jmul NInf (Num b) = (if 0 < b then NInf else if b < 0 then PInf else NaN)"
| "jmul (Num a) PInf = (if 0 < a then PInf else if a < 0 then NInf else NaN)"
| "jmul (Num a) NInf = (if 0 < a then NInf else if a < 0 then PInf else NaN)"
| "jmul PInf PInf = PInf"
| "jmul PInf NInf = NInf"
| "jmul NInf PInf = NInf"
| "jmul NInf NInf = PInf"

fun jdiv :: "jsnum \<Rightarrow> jsnum \<Rightarrow> jsnum" where
  "jdiv (Num a) (Num b) =
     (if b \<noteq> 0 then Num (a / b)
      else if 0 < a then PInf else if a < 0 then NInf else NaN)"
| "jdiv NaN _ = NaN"
| "jdiv _ NaN = NaN"
| "jdiv (Num a) PInf = Num 0"
| "jdiv (Num a) NInf = Num 0"
| "jdiv PInf (Num b) = (if 0 \<le> b then PInf else NInf)"
| "jdiv NInf (Num b) = (if 0 \<le> b then NInf else PInf)"
| "jdiv PInf PInf = NaN"
| "jdiv PInf NInf = NaN"
| "jdiv NInf PInf = NaN"
| "jdiv NInf NInf = NaN"

fun jabs :: "jsnum \<Rightarrow> jsnum" where
  "jabs (Num a) = Num \<bar>a\<bar>"
| "jabs PInf = PInf"
| "jabs NInf = PInf"
| "jabs NaN = NaN"

fun jsqrt :: "jsnum \<Rightarrow> jsnum" where
  "jsqrt (Num a) = (if a < 0 then NaN else Num (sqrt a))"
| "jsqrt PInf = PInf"
| "jsqrt NInf = NaN"
| "jsqrt NaN = NaN"

fun jcos :: "jsnum \<Rightarrow> jsnum" where
  "jcos (Num a) = Num (cos a)"
| "jcos _ = NaN"

fun jsin :: "jsnum \<Rightarrow> jsnum" where
  "jsin (Num a) = Num (sin a)"
| "jsin _ = NaN"

fun jlog10 :: "jsnum \<Rightarrow> jsnum" where
  "jlog10 (Num a) = (if a < 0 then NaN else if a = 0 then NInf else Num (log 10 a))"
| "jlog10 PInf = PInf"
| "jlog10 NInf = NaN"
| "jlog10 NaN = NaN"

fun jfloor :: "jsnum \<Rightarrow> jsnum" where
  "jfloor (Num a) = Num (of_int \<lfloor>a\<rfloor>)"
| "jfloor PInf = PInf"
| "jfloor NInf = NInf"
| "jfloor NaN = NaN"

text \<open>Comparisons: every comparison with \<open>NaN\<close> is false.\<close>

fun jlt :: "jsnum \<Rightarrow> jsnum \<Rightarrow> bool" where
  "jlt (Num a) (Num b) = (a < b)"
| "jlt NaN _ = False"
| "jlt _ NaN = False"
| "jlt _ NInf = False"
| "jlt PInf _ = False"
| "jlt NInf _ = True"
| "jlt _ PInf = True"

fun jle :: "jsnum \<Rightarrow> jsnum \<Rightarrow> bool" where
  "jle (Num a) (Num b) = (a \<le> b)"
| "jle NaN _ = False"
| "jle _ NaN = False"
| "jle NInf _ = True"
| "jle _ PInf = True"
| "jle _ NInf = False"
| "jle PInf _ = False"

definition jgt :: "jsnum \<Rightarrow> jsnum \<Rightarrow> bool" where
  "jgt a b = jlt b a"

definition jge :: "jsnum \<Rightarrow> jsnum \<Rightarrow> bool" where
  "jge a b = jle b a"

text \<open>\<open>Math.max\<close> and \<open>Math.min\<close> of two arguments: \<open>NaN\<close> if either is.\<close>

definition jmax :: "jsnum \<Rightarrow> jsnum \<Rightarrow> jsnum" where
  "jmax a b = (if a = NaN \<or> b = NaN then NaN else if jlt a b then b else a)"

definition jmin :: "jsnum \<Rightarrow> jsnum \<Rightarrow> jsnum" where
  "jmin a b = (if a = NaN \<or> b = NaN then NaN else if jlt b a then b else a)"

text \<open>Reading element \<open>i\<close> of a typed array.\<close>

definition rd :: "jsnum list \<Rightarrow> nat \<Rightarrow> jsnum" where
  "rd xs i = (if i < length xs then xs ! i else NaN)"

text \<open>Reading a sample buffer (finite samples) at an integer index.\<close>

definition rdSample :: "real list \<Rightarrow> int \<Rightarrow> jsnum" where
  "rdSample xs k = (if 0 \<le> k \<and> k < int (length xs) then Num (xs ! nat k) else NaN)"

section \<open>Data model\<close>

record SpectralFeature =
  frequency :: real
  magnitude :: real
  phase :: real
  bandwidth :: real

record HarmonicSeries =
  fundamental :: real
  overtones :: "SpectralFeature list"
  strength :: real
  inharmonicity :: real

record AnalysisSettings =
  fftSize :: int
  windowSize :: int
  hopSize :: int
  minFreq :: real
  maxFreq :: real
  harmonicThreshold :: real
  noiseFloor :: real

text \<open>
  The \<open>AudioBuffer\<close> of the Web Audio API: its channels all have the same length, and
  \<open>numberOfChannels\<close> is the number of channels it holds.
\<close>

record AudioBuffer =
  sampleRate :: real
  duration :: real
  channels :: "real list list"

record AnalysisResult =
  spectralFeatures :: "SpectralFeature list"
  harmonics :: "HarmonicSeries list"
  fundamentalFreq :: "real option"
  spectralCentroid :: jsnum
  spectralRolloff :: jsnum
  spectralFlux :: real
  rmsLevel :: jsnum
  peakLevel :: real
  resultSampleRate :: real
  resultDuration :: real
  envelope :: "jsnum list"
  spectrogram :: "jsnum list list"

record AudioProcessor =
  audioBuffer :: AudioBuffer
  settings :: AnalysisSettings
  windowFunction :: "jsnum list"

section \<open>Window Generator\<close>

text \<open>
  \<open>createWindow\<close>: \<open>new Float32Array(size)\<close> throws a \<open>RangeError\<close> for a negative size;
  otherwise the loop fills \<open>size\<close> Blackman-Harris coefficients. The source has no other
  failure.
\<close>

definition windowCoeff :: "int \<Rightarrow> nat \<Rightarrow> jsnum" where
  "windowCoeff sz i =
     (let a0 = Num (35875 / 100000); a1 = Num (48829 / 100000);
          a2 = Num (14128 / 100000); a3 = Num (1168 / 100000);
          d = Num (of_int (sz - 1))
      in jsub (jadd (jsub a0 (jmul a1 (jcos (jdiv (Num (2 * pi * real i)) d))))
                    (jmul a2 (jcos (jdiv (Num (4 * pi * real i)) d))))
              (jmul a3 (jcos (jdiv (Num (6 * pi * real i)) d))))"

definition createWindow :: "int \<Rightarrow> error + jsnum list" where
  "createWindow sz =
     (if sz < 0 then Inl RangeError
      else Inr (map (windowCoeff sz) [0..<nat sz]))"

definition newAudioProcessor :: "AudioBuffer \<Rightarrow> AnalysisSettings \<Rightarrow> error + AudioProcessor" where
  "newAudioProcessor buf st =
     (case createWindow (windowSize st) of
        Inl e \<Rightarrow> Inl e
      | Inr w \<Rightarrow> Inr \<lparr>audioBuffer = buf, settings = st, windowFunction = w\<rparr>)"

section \<open>FFT Engine\<close>

text \<open>
  The bit operations of the source work on 32-bit integers; the lengths here are below
  \<open>2^31\<close>, where they agree with the operations on natural numbers.
  \<open>revLoop\<close> is the inner \<open>while (j & bit)\<close> loop of the bit-reversal permutation.
\<close>

function revLoop :: "nat \<Rightarrow> nat \<Rightarrow> nat \<times> nat" where
  "revLoop j b = (if j AND b \<noteq> 0 then revLoop (j XOR b) (b div 2) else (j, b))"
  by pat_completeness auto
termination
proof (relation "measure snd")
  show "wf (measure snd)" by simp
next
  fix j b :: nat
  assume "j AND b \<noteq> 0"
  then have "b \<noteq> 0" by (cases "b = 0") simp_all
  then show "((j XOR b, b div 2), (j, b)) \<in> measure snd" by simp
qed

declare revLoop.simps [simp del]

text \<open>The destructuring swap \<open>[a[i], a[j]] = [a[j], a[i]]\<close>: both reads come first.\<close>

definition swapAt :: "jsnum list \<Rightarrow> nat \<Rightarrow> nat \<Rightarrow> jsnum list" where
  "swapAt xs i j = (xs[i := rd xs j])[j := rd xs i]"

definition bitrevStep ::
  "nat \<Rightarrow> nat \<Rightarrow> nat \<times> jsnum list \<times> jsnum list \<Rightarrow> nat \<times> jsnum list \<times> jsnum list" where
  "bitrevStep N i st =
     (case st of (j, re, im) \<Rightarrow>
        (case revLoop j (N div 2) of (j1, b1) \<Rightarrow>
           (let j2 = j1 XOR b1
            in if i < j2 then (j2, swapAt re i j2, swapAt im i j2) else (j2, re, im))))"

definition bitReverse :: "nat \<Rightarrow> jsnum list \<times> jsnum list \<Rightarrow> jsnum list \<times> jsnum list" where
  "bitReverse N st = snd (fold (bitrevStep N) [1..<N] (0, st))"

definition butterfly ::
  "nat \<Rightarrow> nat \<Rightarrow> nat \<Rightarrow> jsnum list \<times> jsnum list \<Rightarrow> jsnum list \<times> jsnum list" where
  "butterfly len i j st =
     (case st of (re, im) \<Rightarrow>
        (let wlen = 2 * pi / real len;
             u = rd re (i + j);
             v = rd im (i + j);
             wr = Num (cos (wlen * real j));
             wi = Num (sin (wlen * real j));
             x = rd re (i + j + len div 2);
             y = rd im (i + j + len div 2);
             re1 = re[i + j := jadd u (jsub (jmul wr x) (jmul wi y))];
             im1 = im[i + j := jadd v (jadd (jmul wi x) (jmul wr y))];
             re2 = re1[i + j + len div 2 := jsub u (jsub (jmul wr x) (jmul wi y))];
             im2 = im1[i + j + len div 2 := jsub v (jadd (jmul wi x) (jmul wr y))]
         in (re2, im2)))"

text \<open>One pass \<open>for (i = 0; i < N; i += len)\<close> over the blocks of span \<open>len\<close>.\<close>

definition fftStage :: "nat \<Rightarrow> nat \<Rightarrow> jsnum list \<times> jsnum list \<Rightarrow> jsnum list \<times> jsnum list" where
  "fftStage len N st =
     fold (\<lambda>i. fold (butterfly len i) [0..<len div 2]) (filter (\<lambda>i. i mod len = 0) [0..<N]) st"

text \<open>
  The loop \<open>for (len = 2; len <= N; len *= 2)\<close>. It starts at 2, so \<open>len\<close> is never 0;
  the guard \<open>0 < len\<close> only makes the recursion well-founded.
\<close>

function fftStages :: "nat \<Rightarrow> nat \<Rightarrow> jsnum list \<times> jsnum list \<Rightarrow> jsnum list \<times> jsnum list" where
  "fftStages len N st =
     (if 0 < len \<and> len \<le> N then fftStages (len * 2) N (fftStage len N st) else st)"
  by pat_completeness auto
termination
  by (relation "measure (\<lambda>(len, N, st). N + 1 - len)") auto

declare fftStages.simps [simp del]

definition fft :: "jsnum list \<Rightarrow> jsnum list \<times> jsnum list" where
  "fft signal =
     (let N = length signal
      in fftStages 2 N (bitReverse N (signal, replicate N (Num 0))))"

section \<open>Spectrum Extractor\<close>

text \<open>\<open>getPhaseSpectrum\<close> is never called by the analysis and is left out.\<close>

definition getMagnitudeSpectrum :: "jsnum list \<Rightarrow> jsnum list \<Rightarrow> jsnum list" where
  "getMagnitudeSpectrum re im =
     map (\<lambda>i. jsqrt (jadd (jmul (rd re i) (rd re i)) (jmul (rd im i) (rd im i))))
       [0..<length re div 2]"

section \<open>Peak Detector\<close>

text \<open>
  \<open>Math.max(...spectrum)\<close>: \<open>-Infinity\<close> for no argument, \<open>NaN\<close> if any argument is. (The
  engine's limit on the number of arguments of a call is not modelled.)
\<close>

definition maxOf :: "jsnum list \<Rightarrow> jsnum" where
  "maxOf xs = fold (\<lambda>x m. jmax m x) xs NInf"

text \<open>
  The bandwidth loop \<open>for (j = 1; j < 20; j++)\<close> with its \<open>break\<close>; the last argument is
  the list of values of \<open>j\<close> still to visit, and the default is one bin width.
\<close>

fun bandwidthLoop :: "jsnum list \<Rightarrow> nat \<Rightarrow> jsnum \<Rightarrow> jsnum \<Rightarrow> nat list \<Rightarrow> jsnum" where
  "bandwidthLoop spectrum i mag freqResolution [] = freqResolution"
| "bandwidthLoop spectrum i mag freqResolution (j # js) =
     (if j \<le> i \<and> jlt (rd spectrum (i - j)) (jmul mag (Num (707 / 1000)))
      then jmul (Num (real j)) freqResolution
      else bandwidthLoop spectrum i mag freqResolution js)"

text \<open>
  The body of the scan for one bin \<open>i\<close>: the feature it pushes, if any. A feature's
  frequency passed the range test and its magnitude compared greater than its
  neighbours, so with a spectrum that holds no infinity (lemma \<open>centreSpectrum_finiteOrNaN\<close>
  below) its fields are finite numbers.
\<close>

definition peakAt ::
  "AnalysisSettings \<Rightarrow> jsnum list \<Rightarrow> jsnum \<Rightarrow> jsnum \<Rightarrow> nat \<Rightarrow> SpectralFeature option" where
  "peakAt st spectrum threshold freqResolution i =
     (let mag = rd spectrum i
      in if jgt mag threshold \<and>
            jgt mag (rd spectrum (i - 1)) \<and>
            jgt mag (rd spectrum (i + 1)) \<and>
            jgt mag (rd spectrum (i - 2)) \<and>
            jgt mag (rd spectrum (i + 2))
         then
           (let y1 = rd spectrum (i - 1);
                y2 = rd spectrum i;
                y3 = rd spectrum (i + 1);
                a = jdiv (jadd (jsub y1 (jmul (Num 2) y2)) y3) (Num 2);
                b = jdiv (jsub y3 y1) (Num 2);
                peakOffset =
                  (if a \<noteq> Num 0
                   then jmax (Num (- 1)) (jmin (Num 1) (jdiv (jneg b) (jmul (Num 2) a)))
                   else Num 0);
                freq = jmul (jadd (Num (real i)) peakOffset) freqResolution
            in if jge freq (Num (minFreq st)) \<and> jle freq (Num (maxFreq st))
               then
                 (case (freq, mag, bandwidthLoop spectrum i mag freqResolution [1..<20]) of
                    (Num f, Num m, Num bw) \<Rightarrow>
                      Some \<lparr>frequency = f, magnitude = m, phase = 0, bandwidth = bw\<rparr>
                  | _ \<Rightarrow> None)
               else None)
         else None)"

text \<open>\<open>features.sort((a, b) => b.magnitude - a.magnitude)\<close> is a stable sort.\<close>

definition findPeaks :: "AnalysisSettings \<Rightarrow> jsnum list \<Rightarrow> real \<Rightarrow> SpectralFeature list" where
  "findPeaks st spectrum sr =
     (let threshold = jmul (maxOf spectrum) (Num (harmonicThreshold st));
          freqResolution = jdiv (Num sr) (Num (real (length spectrum * 2)));
          features =
            List.map_filter (peakAt st spectrum threshold freqResolution)
              [2..<length spectrum - 2]
      in sort_key (\<lambda>f. - magnitude f) features)"

section \<open>Harmonic Grouper\<close>

text \<open>
  A series holds references to elements of \<open>features\<close>; the model holds their indices
  (\<open>series[0]\<close> is the candidate \<open>i\<close>) and reads the features off when the record is
  built. \<open>processed\<close> is the set of claimed indices. \<open>matchStep\<close> is the body of the
  search loop over \<open>j\<close>: the pair is \<open>bestMatch\<close> (its index) and \<open>minError\<close>.
\<close>

definition matchStep ::
  "SpectralFeature list \<Rightarrow> nat set \<Rightarrow> real \<Rightarrow> nat \<Rightarrow> nat option \<times> jsnum \<Rightarrow> nat option \<times> jsnum" where
  "matchStep features processed targetFreq j st =
     (case st of (bestMatch, minError) \<Rightarrow>
        if j \<in> processed then st
        else
          (let feature = features ! j;
               err = jdiv (Num \<bar>frequency feature - targetFreq\<bar>) (Num targetFreq)
           in if jlt err (Num (2 / 100)) \<and> jlt err minError then (Some j, err) else st))"

definition findMatch :: "SpectralFeature list \<Rightarrow> nat set \<Rightarrow> nat \<Rightarrow> real \<Rightarrow> nat option" where
  "findMatch features processed i targetFreq =
     fst (fold (matchStep features processed targetFreq) [i + 1..<length features] (None, PInf))"

definition harmonicStep ::
  "SpectralFeature list \<Rightarrow> nat \<Rightarrow> nat \<Rightarrow> nat list \<times> nat set \<Rightarrow> nat list \<times> nat set" where
  "harmonicStep features i harmonicNum st =
     (case st of (series, processed) \<Rightarrow>
        (let targetFreq = frequency (features ! i) * real harmonicNum
         in case findMatch features processed i targetFreq of
              None \<Rightarrow> (series, processed)
            | Some j \<Rightarrow> (series @ [j], insert j processed)))"

text \<open>
  The body of the loop over candidate fundamentals. The pair is the list of retained
  series (in the order of their \<open>push\<close>) and \<open>processed\<close>.
\<close>

definition candidateStep ::
  "SpectralFeature list \<Rightarrow> nat \<Rightarrow> nat list list \<times> nat set \<Rightarrow> nat list list \<times> nat set" where
  "candidateStep features i st =
     (case st of (groups, processed) \<Rightarrow>
        if i \<in> processed then st
        else
          (case fold (harmonicStep features i) [2..<21] ([i], insert i processed) of
             (series, processed') \<Rightarrow>
               if 3 \<le> length series then (groups @ [series], processed')
               else (groups, processed')))"

definition harmonicGroups :: "SpectralFeature list \<Rightarrow> nat list list" where
  "harmonicGroups features =
     fst (fold (candidateStep features) [0..<min (length features) 50] ([], {}))"

text \<open>
  The record pushed for a retained series. A retained series has found a match, so the
  fundamental's frequency is not 0 (lemma \<open>harmonicGroups_fundamental_nonzero\<close> below) and
  the divisions are those of the reals.
\<close>

definition mkSeries :: "SpectralFeature list \<Rightarrow> nat list \<Rightarrow> HarmonicSeries" where
  "mkSeries features idxs =
     (let series = map (\<lambda>k. features ! k) idxs;
          fund = hd series;
          inh = fold (\<lambda>k acc. acc + \<bar>frequency (series ! k) - frequency fund * real (k + 1)\<bar>
                                    / (frequency fund * real (k + 1)))
                  [1..<length series] 0
                / real (length series - 1);
          str = fold (\<lambda>s acc. acc + magnitude s) series 0
      in \<lparr>fundamental = frequency fund, overtones = series, strength = str,
          inharmonicity = inh\<rparr>)"

text \<open>\<open>harmonics.sort((a, b) => b.strength - a.strength)\<close> is a stable sort.\<close>

definition detectHarmonics :: "SpectralFeature list \<Rightarrow> HarmonicSeries list" where
  "detectHarmonics features =
     sort_key (\<lambda>h. - strength h) (map (mkSeries features) (harmonicGroups features))"

section \<open>Spectral Statistics\<close>

definition calculateSpectralCentroid :: "jsnum list \<Rightarrow> real \<Rightarrow> jsnum" where
  "calculateSpectralCentroid spectrum sr =
     (let freqResolution = jdiv (Num sr) (Num (real (length spectrum * 2)))
      in case fold (\<lambda>i (weightedSum, magnitudeSum).
                     (jadd weightedSum (jmul (jmul (Num (real i)) freqResolution) (rd spectrum i)),
                      jadd magnitudeSum (rd spectrum i)))
                [0..<length spectrum] (Num 0, Num 0) of
           (weightedSum, magnitudeSum) \<Rightarrow>
             if jgt magnitudeSum (Num 0) then jdiv weightedSum magnitudeSum else Num 0)"

fun rolloffLoop :: "jsnum list \<Rightarrow> jsnum \<Rightarrow> jsnum \<Rightarrow> jsnum \<Rightarrow> nat list \<Rightarrow> jsnum" where
  "rolloffLoop spectrum freqResolution threshold cumulativeEnergy [] =
     jmul (Num (real (length spectrum) - 1)) freqResolution"
| "rolloffLoop spectrum freqResolution threshold cumulativeEnergy (i # is) =
     (let cumulativeEnergy' = jadd cumulativeEnergy (jmul (rd spectrum i) (rd spectrum i))
      in if jge cumulativeEnergy' threshold then jmul (Num (real i)) freqResolution
         else rolloffLoop spectrum freqResolution threshold cumulativeEnergy' is)"

definition calculateSpectralRolloff :: "jsnum list \<Rightarrow> real \<Rightarrow> jsnum" where
  "calculateSpectralRolloff spectrum sr =
     (let freqResolution = jdiv (Num sr) (Num (real (length spectrum * 2)));
          totalEnergy = fold (\<lambda>mag acc. jadd acc (jmul mag mag)) spectrum (Num 0);
          threshold = jmul totalEnergy (Num (85 / 100))
      in rolloffLoop spectrum freqResolution threshold (Num 0) [0..<length spectrum])"

section \<open>Envelope Extractor\<close>

text \<open>
  The loop index \<open>j\<close> starts at \<open>Math.max(0, i - windowSize / 2)\<close>, which is not an
  integer when \<open>windowSize\<close> is odd and \<open>i\<close> exceeds its half; \<open>audioData[j]\<close> is then
  \<open>undefined\<close> and \<open>Math.abs\<close> of it is \<open>NaN\<close>.
\<close>

definition rdAt :: "real list \<Rightarrow> real \<Rightarrow> jsnum" where
  "rdAt xs j = (if j = of_int \<lfloor>j\<rfloor> then rdSample xs \<lfloor>j\<rfloor> else NaN)"

function envelopeLoop :: "real list \<Rightarrow> real \<Rightarrow> real \<Rightarrow> jsnum \<Rightarrow> nat \<Rightarrow> jsnum \<times> nat" where
  "envelopeLoop audioData stop j acc count =
     (if j < stop
      then envelopeLoop audioData stop (j + 1) (jadd acc (jabs (rdAt audioData j))) (count + 1)
      else (acc, count))"
  by pat_completeness auto
termination
proof (relation "measure (\<lambda>(audioData, stop, j, acc, count). nat \<lceil>stop - j\<rceil>)")
  show "wf (measure (\<lambda>(audioData, stop, j, acc, count). nat \<lceil>stop - j\<rceil>))"
    by simp
next
  fix audioData :: "real list" and stop j :: real and acc :: jsnum and count :: nat
  assume lt: "j < stop"
  have "stop - (j + 1) = (stop - j) - 1" by simp
  then have "\<lceil>stop - (j + 1)\<rceil> = \<lceil>stop - j\<rceil> - 1" by (simp only: ceiling_diff_one)
  moreover from lt have "0 < \<lceil>stop - j\<rceil>" by simp
  ultimately have "nat \<lceil>stop - (j + 1)\<rceil> < nat \<lceil>stop - j\<rceil>" by linarith
  then show "((audioData, stop, j + 1, jadd acc (jabs (rdAt audioData j)), count + 1),
              (audioData, stop, j, acc, count))
             \<in> measure (\<lambda>(audioData, stop, j, acc, count). nat \<lceil>stop - j\<rceil>)"
    by simp
qed

declare envelopeLoop.simps [simp del]

definition envelopeAt :: "real list \<Rightarrow> int \<Rightarrow> nat \<Rightarrow> jsnum" where
  "envelopeAt audioData wsz i =
     (let start = max 0 (real i - real_of_int wsz / 2);
          stop = min (real (length audioData)) (real i + real_of_int wsz / 2)
      in case envelopeLoop audioData stop start (Num 0) 0 of
           (acc, count) \<Rightarrow> if 0 < count then jdiv acc (Num (real count)) else Num 0)"

definition calculateEnvelope :: "real \<Rightarrow> real list \<Rightarrow> jsnum list" where
  "calculateEnvelope sr audioData =
     (let wsz = \<lfloor>sr * (1 / 100)\<rfloor>
      in map (envelopeAt audioData wsz) [0..<length audioData])"

section \<open>Spectrogram Builder\<close>

definition dbNormalize :: "jsnum \<Rightarrow> jsnum" where
  "dbNormalize mag =
     (let db = jmul (Num 20) (jlog10 (jmax mag (Num (1 / 10 ^ 10))))
      in jmax (Num 0) (jdiv (jadd db (Num 100)) (Num 100)))"

text \<open>
  One iteration of the frame loop. \<open>new Float32Array(windowSize)\<close> throws for a negative
  size, and \<open>new Array(numBins)\<close> throws a \<open>RangeError\<close> when \<open>numBins = windowSize / 2\<close> is
  not an integer.
\<close>

definition windowedFrame ::
  "AnalysisSettings \<Rightarrow> jsnum list \<Rightarrow> real list \<Rightarrow> nat \<Rightarrow> jsnum list" where
  "windowedFrame st window audioData frame =
     (let start = int frame * hopSize st
      in map (\<lambda>i. if start + int i < int (length audioData)
                   then jmul (rdSample audioData (start + int i)) (rd window i)
                   else Num 0)
           [0..<nat (windowSize st)])"

definition frameMagnitudes ::
  "AnalysisSettings \<Rightarrow> jsnum list \<Rightarrow> real list \<Rightarrow> nat \<Rightarrow> jsnum list" where
  "frameMagnitudes st window audioData frame =
     (case fft (windowedFrame st window audioData frame) of
        (re, im) \<Rightarrow> getMagnitudeSpectrum re im)"

definition spectrogramFrame ::
  "AnalysisSettings \<Rightarrow> jsnum list \<Rightarrow> real list \<Rightarrow> nat \<Rightarrow> error + jsnum list" where
  "spectrogramFrame st window audioData frame =
     (if windowSize st < 0 then Inl RangeError
      else
        (let mags = frameMagnitudes st window audioData frame
         in if odd (windowSize st) then Inl RangeError
            else Inr (map (\<lambda>i. dbNormalize (rd mags i)) [0..<nat (windowSize st div 2)])))"

fun collectFrames :: "(nat \<Rightarrow> error + jsnum list) \<Rightarrow> nat list \<Rightarrow> error + jsnum list list" where
  "collectFrames f [] = Inr []"
| "collectFrames f (k # ks) =
     (case f k of
        Inl e \<Rightarrow> Inl e
      | Inr fr \<Rightarrow> (case collectFrames f ks of Inl e \<Rightarrow> Inl e | Inr frs \<Rightarrow> Inr (fr # frs)))"

text \<open>
  \<open>numFrames\<close> is \<open>Infinity\<close> when \<open>hopSize\<close> is 0 and the signal is longer than the
  window: the frame loop then never ends (unless its first iteration throws). It is
  \<open>-Infinity\<close> or \<open>NaN\<close> when \<open>hopSize\<close> is 0 otherwise, and the loop does not run.
\<close>

definition generateSpectrogram ::
  "AnalysisSettings \<Rightarrow> jsnum list \<Rightarrow> real list \<Rightarrow> error + jsnum list list" where
  "generateSpectrogram st window audioData =
     (let numFrames =
            jadd (jfloor (jdiv (Num (real (length audioData) - real_of_int (windowSize st)))
                               (Num (real_of_int (hopSize st)))))
                 (Num 1)
      in case numFrames of
           Num k \<Rightarrow> collectFrames (spectrogramFrame st window audioData) [0..<nat \<lfloor>k\<rfloor>]
         | PInf \<Rightarrow>
             (case spectrogramFrame st window audioData 0 of
                Inl e \<Rightarrow> Inl e
              | Inr fr \<Rightarrow> Inl NoReturn)
         | NInf \<Rightarrow> Inr []
         | NaN \<Rightarrow> Inr [])"

section \<open>Analysis Orchestrator\<close>

text \<open>
  The choice of the fundamental at the end of \<open>analyze\<close>: the reverse scan of the
  magnitude-sorted features has no \<open>break\<close>, so the last assignment stands.
\<close>

definition selectFundamental ::
  "AnalysisSettings \<Rightarrow> HarmonicSeries list \<Rightarrow> SpectralFeature list \<Rightarrow> real option" where
  "selectFundamental st hs features =
     (if 0 < length hs then Some (fundamental (hd hs))
      else if 0 < length features
      then fold (\<lambda>feature ff. if minFreq st \<le> frequency feature
                               then Some (frequency feature) else ff)
             (rev features) None
      else None)"

text \<open>
  \<open>getChannelData(0)\<close> throws an \<open>IndexSizeError\<close> on a buffer without channels, and
  \<open>new Float32Array(fftSize)\<close> a \<open>RangeError\<close> for a negative size.
\<close>

definition mixdown :: "real list list \<Rightarrow> error + real list" where
  "mixdown chs =
     (case chs of
        [] \<Rightarrow> Inl IndexSizeError
      | [c] \<Rightarrow> Inr c
      | left # right # rest \<Rightarrow> Inr (map2 (\<lambda>l r. (l + r) / 2) left right))"

definition centreFrame :: "AudioProcessor \<Rightarrow> real list \<Rightarrow> jsnum list" where
  "centreFrame p audioData =
     (let start = \<lfloor>(real (length audioData) - real_of_int (fftSize (settings p))) / 2\<rfloor>
      in map (\<lambda>i. if start + int i < int (length audioData) \<and> 0 \<le> start + int i
                   then jmul (rdSample audioData (start + int i)) (rd (windowFunction p) i)
                   else Num 0)
           [0..<nat (fftSize (settings p))])"

definition centreSpectrum :: "AudioProcessor \<Rightarrow> real list \<Rightarrow> jsnum list" where
  "centreSpectrum p audioData =
     (case fft (centreFrame p audioData) of (re, im) \<Rightarrow> getMagnitudeSpectrum re im)"

definition analyze :: "AudioProcessor \<Rightarrow> error + AnalysisResult" where
  "analyze p =
     (case mixdown (channels (audioBuffer p)) of
        Inl e \<Rightarrow> Inl e
      | Inr audioData \<Rightarrow>
          (let rmsSum = fold (\<lambda>x acc. acc + \<bar>x\<bar> * \<bar>x\<bar>) audioData 0;
               peak = fold (\<lambda>x pk. max pk \<bar>x\<bar>) audioData 0;
               rms = jsqrt (jdiv (Num rmsSum) (Num (real (length audioData))))
           in if fftSize (settings p) < 0 then Inl RangeError
              else
                (let mags = centreSpectrum p audioData;
                     features = findPeaks (settings p) mags (sampleRate (audioBuffer p));
                     hs = detectHarmonics features;
                     centroid = calculateSpectralCentroid mags (sampleRate (audioBuffer p));
                     rolloff = calculateSpectralRolloff mags (sampleRate (audioBuffer p));
                     ff = selectFundamental (settings p) hs features;
                     env = calculateEnvelope (sampleRate (audioBuffer p)) audioData
                 in case generateSpectrogram (settings p) (windowFunction p) audioData of
                      Inl e \<Rightarrow> Inl e
                    | Inr sg \<Rightarrow>
                        Inr \<lparr>spectralFeatures = features, harmonics = hs,
                             fundamentalFreq = ff, spectralCentroid = centroid,
                             spectralRolloff = rolloff, spectralFlux = 0,
                             rmsLevel = rms, peakLevel = peak,
                             resultSampleRate = sampleRate (audioBuffer p),
                             resultDuration = duration (audioBuffer p),
                             envelope = env, spectrogram = sg\<rparr>)))"

text \<open>
  The use of the class by its caller: \<open>new AudioProcessor(audioBuffer, settings)\<close>
  followed by \<open>analyze()\<close>.
\<close>

definition runAnalysis :: "AudioBuffer \<Rightarrow> AnalysisSettings \<Rightarrow> error + AnalysisResult" where
  "runAnalysis buf st =
     (case newAudioProcessor buf st of Inl e \<Rightarrow> Inl e | Inr p \<Rightarrow> analyze p)"

section \<open>Notions used in the statements\<close>

text \<open>
  The spectrum at distance \<open>j\<close> below bin \<open>i\<close> is under the -3 dB point of a peak of
  magnitude \<open>m\<close> (the test of the bandwidth loop).
\<close>

definition dropsAt :: "jsnum list \<Rightarrow> nat \<Rightarrow> real \<Rightarrow> nat \<Rightarrow> bool" where
  "dropsAt spectrum i m j = (j \<le> i \<and> jlt (rd spectrum (i - j)) (Num (m * (707 / 1000))))"

text \<open>
  The bandwidth as the specification words it: the smallest distance of at most 20 bins
  at which the magnitude drops below \<open>0.707 m\<close>, times the bin width, and one bin width
  if there is none.
\<close>

definition specBandwidth :: "jsnum list \<Rightarrow> nat \<Rightarrow> real \<Rightarrow> real \<Rightarrow> real" where
  "specBandwidth spectrum i m fr =
     (case find (dropsAt spectrum i m) [1..<21] of None \<Rightarrow> fr | Some j \<Rightarrow> real j * fr)"

definition zeroOrNaN :: "jsnum \<Rightarrow> bool" where
  "zeroOrNaN x = (x = Num 0 \<or> x = NaN)"

definition finiteOrNaN :: "jsnum \<Rightarrow> bool" where
  "finiteOrNaN x = (x \<noteq> PInf \<and> x \<noteq> NInf)"

text \<open>A set of numbers that the arithmetic of the FFT butterflies does not leave.\<close>

definition closedArith :: "(jsnum \<Rightarrow> bool) \<Rightarrow> bool" where
  "closedArith P = (P NaN \<and> P (Num 0) \<and> (\<forall>c x. P x \<longrightarrow> P (jmul (Num c) x)) \<and>
      (\<forall>a b. P a \<longrightarrow> P b \<longrightarrow> P (jadd a b)) \<and> (\<forall>a b. P a \<longrightarrow> P b \<longrightarrow> P (jsub a b)))"

definition bothAll :: "(jsnum \<Rightarrow> bool) \<Rightarrow> jsnum list \<times> jsnum list \<Rightarrow> bool" where
  "bothAll P st = (list_all P (fst st) \<and> list_all P (snd st))"

definition bothLen :: "nat \<Rightarrow> jsnum list \<times> jsnum list \<Rightarrow> bool" where
  "bothLen n st = (length (fst st) = n \<and> length (snd st) = n)"

text \<open>Invariants of the iterations of the Harmonic Grouper.\<close>

definition seriesInv :: "nat \<Rightarrow> nat \<Rightarrow> nat set \<Rightarrow> nat list \<times> nat set \<Rightarrow> bool" where
  "seriesInv n i P0 st =
     (case st of (series, processed) \<Rightarrow>
        processed = P0 \<union> set series \<and> distinct series \<and> set series \<inter> P0 = {} \<and>
        series \<noteq> [] \<and> hd series = i \<and> (\<forall>j\<in>set series. i \<le> j \<and> j < n))"

definition groupsInv :: "nat \<Rightarrow> nat list list \<times> nat set \<Rightarrow> bool" where
  "groupsInv n st =
     (case st of (groups, processed) \<Rightarrow>
        distinct (concat groups) \<and> set (concat groups) \<subseteq> processed \<and>
        (\<forall>g\<in>set groups. g \<noteq> [] \<and> 3 \<le> length g \<and> (\<forall>j\<in>set g. hd g \<le> j \<and> j < n)))"

text \<open>
  The envelope as the specification words it: the mean absolute value of the samples in
  a window of width \<open>round(sampleRate * 0.01)\<close> centred at index \<open>i\<close> (the indices \<open>j\<close> with
  \<open>i - W/2 \<le> j < i + W/2\<close>), clamped to the buffer bounds.
\<close>

definition specEnvelope :: "real \<Rightarrow> real list \<Rightarrow> nat \<Rightarrow> real" where
  "specEnvelope sr a i =
     (let W = round (sr * (1 / 100));
          lo = nat (max 0 \<lceil>real i - real_of_int W / 2\<rceil>);
          hi = nat (min (int (length a)) \<lceil>real i + real_of_int W / 2\<rceil>)
      in if lo < hi then (\<Sum>j = lo..<hi. \<bar>a ! j\<bar>) / real (hi - lo) else 0)"

text \<open>Finite numbers, and a pair of arrays of length \<open>n\<close> that holds only finite numbers.\<close>

definition isNum :: "jsnum \<Rightarrow> bool" where
  "isNum x = (case x of Num a \<Rightarrow> True | PInf \<Rightarrow> False | NInf \<Rightarrow> False | NaN \<Rightarrow> False)"

definition numState :: "nat \<Rightarrow> jsnum list \<times> jsnum list \<Rightarrow> bool" where
  "numState n st = (length (fst st) = n \<and> length (snd st) = n \<and>
                    list_all isNum (fst st) \<and> list_all isNum (snd st))"

section \<open>Verified properties\<close>

subsection \<open>Folds and lists: auxiliary facts\<close>

lemma fold_inv: "(\<And>x s. Q s \<Longrightarrow> Q (f x s)) \<Longrightarrow> Q s \<Longrightarrow> Q (fold f xs s)"
  by (induction xs arbitrary: s) simp_all

lemma fold_inv_set:
  "(\<And>x s. x \<in> set xs \<Longrightarrow> Q s \<Longrightarrow> Q (f x s)) \<Longrightarrow> Q s \<Longrightarrow> Q (fold f xs s)"
  by (induction xs arbitrary: s) simp_all

lemma update_all: "list_all P xs \<Longrightarrow> P v \<Longrightarrow> list_all P (xs[i := v])"
  by (auto simp: list_all_iff dest!: set_update_subset_insert[THEN subsetD])

lemma find_upt_Some:
  assumes "find P [a..<b] = Some j"
  shows "a \<le> j \<and> j < b \<and> P j \<and> (\<forall>k. a \<le> k \<and> k < j \<longrightarrow> \<not> P k)"
proof -
  from assms obtain n where n: "n < length [a..<b]" "P ([a..<b] ! n)" "j = [a..<b] ! n"
    "\<forall>l<n. \<not> P ([a..<b] ! l)"
    by (auto simp: find_Some_iff)
  then have j: "j = a + n" "a + n < b" by auto
  have "\<not> P k" if "a \<le> k" "k < j" for k
  proof -
    from that j have "k - a < n" by arith
    with n(4) have "\<not> P ([a..<b] ! (k - a))" by blast
    moreover from that j have "[a..<b] ! (k - a) = k" by simp
    ultimately show ?thesis by simp
  qed
  with n j show ?thesis by auto
qed

lemma find_upt_None: "find P [a..<b] = None \<Longrightarrow> \<forall>k. a \<le> k \<and> k < b \<longrightarrow> \<not> P k"
  by (auto simp: find_None_iff)

lemma distinct_map_filter:
  assumes "distinct xs"
    and "\<And>x y u v. x \<in> set xs \<Longrightarrow> y \<in> set xs \<Longrightarrow> x \<noteq> y \<Longrightarrow> g x = Some u \<Longrightarrow> g y = Some v \<Longrightarrow> u \<noteq> v"
  shows "distinct (List.map_filter g xs)"
  unfolding List.map_filter_def distinct_map
proof
  show "distinct (filter (\<lambda>x. g x \<noteq> None) xs)" using assms(1) by simp
  show "inj_on (the \<circ> g) (set (filter (\<lambda>x. g x \<noteq> None) xs))"
  proof (rule inj_onI)
    fix x y
    assume x: "x \<in> set (filter (\<lambda>x. g x \<noteq> None) xs)" and y: "y \<in> set (filter (\<lambda>x. g x \<noteq> None) xs)"
      and e: "(the \<circ> g) x = (the \<circ> g) y"
    from x y obtain u v where uv: "g x = Some u" "g y = Some v" by auto
    show "x = y"
    proof (rule ccontr)
      assume "x \<noteq> y"
      from assms(2)[OF _ _ this uv] x y have "u \<noteq> v" by simp
      with e uv show False by simp
    qed
  qed
qed

subsection \<open>Window Generator\<close>

lemma windowCoeff_Num:
  "2 \<le> N \<Longrightarrow> windowCoeff N i =
     Num (35875 / 100000 - 48829 / 100000 * cos (2 * pi * real i / real_of_int (N - 1))
          + 14128 / 100000 * cos (4 * pi * real i / real_of_int (N - 1))
          - 1168 / 100000 * cos (6 * pi * real i / real_of_int (N - 1)))"
  by (simp add: windowCoeff_def Let_def jsub_def)

text \<open>
  C2, as the specification states it, asks for an \<open>InvalidParameter\<close> failure for every
  length below 2. The source has no such failure: length 0 returns the empty array and
  length 1 a one-element array.
\<close>

theorem createWindow_no_InvalidParameter:
  "createWindow 0 = Inr [] \<and> createWindow 1 = Inr [NaN]"
  by (simp add: createWindow_def windowCoeff_def Let_def jsub_def)

text \<open>
  C2 (amended): for every \<open>N \<ge> 2\<close> the Window Generator returns an array of length \<open>N\<close>
  with \<open>w[i] = 0.35875 - 0.48829 cos(2\<pi>i/(N-1)) + 0.14128 cos(4\<pi>i/(N-1)) - 0.01168
  cos(6\<pi>i/(N-1))\<close>. Below 2 there is no \<open>InvalidParameter\<close>: length 0 gives the empty
  array, length 1 the array holding \<open>NaN\<close> (the quotient \<open>0/0\<close>), and a negative length the
  \<open>RangeError\<close> of the array constructor.
\<close>

theorem createWindow_spec:
  "(2 \<le> N \<longrightarrow>
      (\<exists>w. createWindow N = Inr w \<and> length w = nat N \<and>
           (\<forall>i<nat N. w ! i =
              Num (35875 / 100000 - 48829 / 100000 * cos (2 * pi * real i / real_of_int (N - 1))
                   + 14128 / 100000 * cos (4 * pi * real i / real_of_int (N - 1))
                   - 1168 / 100000 * cos (6 * pi * real i / real_of_int (N - 1)))))) \<and>
   createWindow 0 = Inr [] \<and>
   createWindow 1 = Inr [NaN] \<and>
   (N < 0 \<longrightarrow> createWindow N = Inl RangeError)"
proof (intro conjI impI)
  assume N: "2 \<le> N"
  show "\<exists>w. createWindow N = Inr w \<and> length w = nat N \<and>
           (\<forall>i<nat N. w ! i =
              Num (35875 / 100000 - 48829 / 100000 * cos (2 * pi * real i / real_of_int (N - 1))
                   + 14128 / 100000 * cos (4 * pi * real i / real_of_int (N - 1))
                   - 1168 / 100000 * cos (6 * pi * real i / real_of_int (N - 1))))"
    using N by (simp add: createWindow_def windowCoeff_Num)
next
  show "createWindow 0 = Inr []" by (simp add: createWindow_def)
next
  show "createWindow 1 = Inr [NaN]"
    by (simp add: createWindow_def windowCoeff_def Let_def jsub_def)
next
  assume "N < 0"
  then show "createWindow N = Inl RangeError" by (simp add: createWindow_def)
qed

theorem createWindow_spec_witness:
  "(2::int) \<le> 2 \<and> (\<exists>w. createWindow 2 = Inr w \<and> length w = 2 \<and> w ! 1 = Num (3 / 50000)) \<and>
   (- 1 :: int) < 0 \<and> createWindow (- 1) = Inl RangeError"
  using createWindow_spec [of 2] createWindow_spec [of "- 1"]
  by auto

subsection \<open>Peak Detector\<close>

lemma jgt_Num_left: "jgt a b \<Longrightarrow> a \<noteq> NaN \<and> b \<noteq> NaN"
  by (cases a; cases b) (simp_all add: jgt_def)

lemma jgt_asym: "jgt a b \<Longrightarrow> \<not> jgt b a"
  by (cases a; cases b) (simp_all add: jgt_def)

lemma peakAt_SomeD:
  assumes "peakAt st spectrum threshold freqResolution i = Some f"
  shows "rd spectrum i = Num (magnitude f)"
    and "minFreq st \<le> frequency f" and "frequency f \<le> maxFreq st"
    and "bandwidthLoop spectrum i (Num (magnitude f)) freqResolution [1..<20] = Num (bandwidth f)"
    and "jgt (Num (magnitude f)) threshold"
    and "jgt (Num (magnitude f)) (rd spectrum (i - 1))"
    and "jgt (Num (magnitude f)) (rd spectrum (i + 1))"
    and "jgt (Num (magnitude f)) (rd spectrum (i - 2))"
    and "jgt (Num (magnitude f)) (rd spectrum (i + 2))"
  using assms
  by (auto simp: peakAt_def Let_def jge_def split: if_splits jsnum.splits)

lemma bandwidthLoop_find:
  "bandwidthLoop spectrum i (Num m) fr js =
     (case find (dropsAt spectrum i m) js of
        None \<Rightarrow> fr
      | Some j \<Rightarrow> jmul (Num (real j)) fr)"
  by (induction js) (simp_all add: dropsAt_def)

lemma set_findPeaks:
  "set (findPeaks st spectrum sr) =
     {f. \<exists>i. 2 \<le> i \<and> i + 2 < length spectrum \<and>
          peakAt st spectrum (jmul (maxOf spectrum) (Num (harmonicThreshold st)))
            (jdiv (Num sr) (Num (real (length spectrum * 2)))) i = Some f}"
proof -
  have *: "set (List.map_filter g xs) = {y. \<exists>x\<in>set xs. g x = Some y}" for g :: "nat \<Rightarrow> SpectralFeature option" and xs
    by (auto simp: List.map_filter_def intro: rev_image_eqI)
  show ?thesis
    unfolding findPeaks_def Let_def set_sort * by (auto simp del: jdiv.simps jmul.simps simp: less_diff_conv)
qed

lemma sorted_findPeaks:
  "sorted_wrt (\<lambda>a b. magnitude b \<le> magnitude a) (findPeaks st spectrum sr)"
proof -
  have "sorted (map (\<lambda>f. - magnitude f) (findPeaks st spectrum sr))"
    by (simp add: findPeaks_def Let_def)
  then show ?thesis by (simp add: sorted_wrt_map)
qed

lemma findPeaks_range:
  "f \<in> set (findPeaks st spectrum sr) \<Longrightarrow> minFreq st \<le> frequency f \<and> frequency f \<le> maxFreq st"
  by (auto simp: set_findPeaks dest: peakAt_SomeD)

text \<open>
  C4, as the specification states it, walks up to 20 bins. The loop of the source stops
  at distance 19: for a peak of magnitude 1 at bin 20 whose lower neighbours stay at 0.8
  down to bin 1 and whose bin 0 is 0, the first drop below 0.707 is at distance 20; the
  specification's bandwidth is 20 bin widths, the source reports the default of one.
\<close>

theorem bandwidth_20_bins_counterexample:
  "map bandwidth
     (findPeaks \<lparr>fftSize = 46, windowSize = 46, hopSize = 1, minFreq = 1, maxFreq = 23,
                  harmonicThreshold = 1 / 10, noiseFloor = - 60\<rparr>
        (Num 0 # replicate 19 (Num (4 / 5)) @ [Num 1, Num (4 / 5), Num (4 / 5)]) 46) = [1] \<and>
   map magnitude
     (findPeaks \<lparr>fftSize = 46, windowSize = 46, hopSize = 1, minFreq = 1, maxFreq = 23,
                  harmonicThreshold = 1 / 10, noiseFloor = - 60\<rparr>
        (Num 0 # replicate 19 (Num (4 / 5)) @ [Num 1, Num (4 / 5), Num (4 / 5)]) 46) = [1] \<and>
   (Num 0 # replicate 19 (Num (4 / 5)) @ [Num 1, Num (4 / 5), Num (4 / 5)]) ! 20 = Num 1 \<and>
   specBandwidth (Num 0 # replicate 19 (Num (4 / 5)) @ [Num 1, Num (4 / 5), Num (4 / 5)]) 20 1 1 = 20"
  by code_simp

text \<open>
  C4 (amended): for every detected peak, at bin \<open>i\<close> with magnitude \<open>m\<close>, the reported
  bandwidth is \<open>j * freqResolution\<close>, where \<open>j\<close> is the smallest distance from 1 to 19 (with
  \<open>i - j \<ge> 0\<close>) at which the spectrum below the peak, at bin \<open>i - j\<close>, is under \<open>0.707 m\<close>;
  if there is no such distance the bandwidth is one bin width, \<open>freqResolution =
  sampleRate / (2 * spectrum.length)\<close>.
\<close>

theorem findPeaks_bandwidth:
  assumes "f \<in> set (findPeaks st spectrum sr)"
  shows "\<exists>i. 2 \<le> i \<and> i + 2 < length spectrum \<and> spectrum ! i = Num (magnitude f) \<and>
           ((\<exists>j. 1 \<le> j \<and> j \<le> 19 \<and> dropsAt spectrum i (magnitude f) j \<and>
                 (\<forall>k. 1 \<le> k \<and> k < j \<longrightarrow> \<not> dropsAt spectrum i (magnitude f) k) \<and>
                 bandwidth f = real j * (sr / real (2 * length spectrum))) \<or>
            ((\<forall>j. 1 \<le> j \<and> j \<le> 19 \<longrightarrow> \<not> dropsAt spectrum i (magnitude f) j) \<and>
             bandwidth f = sr / real (2 * length spectrum)))"
proof -
  from assms obtain i where i: "2 \<le> i" "i + 2 < length spectrum"
    and pk: "peakAt st spectrum (jmul (maxOf spectrum) (Num (harmonicThreshold st)))
            (jdiv (Num sr) (Num (real (length spectrum * 2)))) i = Some f"
    by (auto simp: set_findPeaks)
  have fr: "jdiv (Num sr) (Num (real (length spectrum * 2))) = Num (sr / real (2 * length spectrum))"
    using i by (auto simp: mult.commute)
  have mag: "spectrum ! i = Num (magnitude f)"
    using peakAt_SomeD(1)[OF pk] i by (simp add: rd_def)
  have bw: "(case find (dropsAt spectrum i (magnitude f)) [1..<20] of
        None \<Rightarrow> Num (sr / real (2 * length spectrum))
      | Some j \<Rightarrow> jmul (Num (real j)) (Num (sr / real (2 * length spectrum)))) = Num (bandwidth f)"
    using peakAt_SomeD(4)[OF pk] unfolding bandwidthLoop_find fr .
  show ?thesis
  proof (cases "find (dropsAt spectrum i (magnitude f)) [1..<20]")
    case None
    from find_upt_None[OF None] bw None i mag show ?thesis
      by (intro exI[of _ i]) auto
  next
    case (Some j)
    from find_upt_Some[OF Some] bw Some i mag show ?thesis
      by (intro exI[of _ i] conjI disjI1 exI[of _ j]) auto
  qed
qed

theorem findPeaks_bandwidth_witness:
  "\<lparr>frequency = 5, magnitude = 2, phase = 0, bandwidth = 1\<rparr>
     \<in> set (findPeaks \<lparr>fftSize = 16, windowSize = 16, hopSize = 4, minFreq = 1, maxFreq = 8,
                        harmonicThreshold = 1 / 10, noiseFloor = - 60\<rparr>
             [Num 0, Num 0, Num 1, Num 0, Num 0, Num 2, Num 0, Num 0] 16) \<and>
   (\<exists>i. [Num 0, Num 0, Num 1, Num 0, Num 0, Num 2, Num 0, Num 0] ! i = Num 2 \<and>
        dropsAt [Num 0, Num 0, Num 1, Num 0, Num 0, Num 2, Num 0, Num 0] i 2 1)"
proof -
  have m: "\<lparr>frequency = 5, magnitude = 2, phase = 0, bandwidth = 1\<rparr>
     \<in> set (findPeaks \<lparr>fftSize = 16, windowSize = 16, hopSize = 4, minFreq = 1, maxFreq = 8,
                        harmonicThreshold = 1 / 10, noiseFloor = - 60\<rparr>
             [Num 0, Num 0, Num 1, Num 0, Num 0, Num 2, Num 0, Num 0] 16)"
    by code_simp
  from findPeaks_bandwidth [OF m] obtain i where
    i: "[Num 0, Num 0, Num 1, Num 0, Num 0, Num 2, Num 0, Num 0] ! i = Num 2" "2 \<le> i" "i + 2 < 8"
    by auto
  then have "i = 5"
    by (auto simp: nth_Cons' split: if_splits)
  then have "dropsAt [Num 0, Num 0, Num 1, Num 0, Num 0, Num 2, Num 0, Num 0] i 2 1"
    by (simp add: dropsAt_def rd_def)
  with m i show ?thesis by blast
qed

text \<open>
  Two peaks are at least three bins apart and the interpolation moves a peak by at most
  one bin, so for a positive sample rate the frequencies of the features differ: the
  list of the Peak Detector has no repetition.
\<close>

lemma clamp_unit:
  "jmax (Num (- 1)) (jmin (Num 1) x) = NaN \<or>
   (\<exists>c. jmax (Num (- 1)) (jmin (Num 1) x) = Num c \<and> - 1 \<le> c \<and> c \<le> 1)"
  by (cases x) (auto simp: jmax_def jmin_def)

lemma peakAt_frequency:
  assumes "peakAt st spectrum threshold (Num fr) i = Some f"
  shows "\<exists>c. - 1 \<le> c \<and> c \<le> 1 \<and> frequency f = (real i + c) * fr"
proof -
  define a where "a = jdiv (jadd (jsub (rd spectrum (i - 1)) (jmul (Num 2) (rd spectrum i)))
                              (rd spectrum (i + 1))) (Num 2)"
  define b where "b = jdiv (jsub (rd spectrum (i + 1)) (rd spectrum (i - 1))) (Num 2)"
  define off where "off = (if a \<noteq> Num 0
                   then jmax (Num (- 1)) (jmin (Num 1) (jdiv (jneg b) (jmul (Num 2) a)))
                   else Num 0)"
  have o: "off = NaN \<or> (\<exists>c. off = Num c \<and> - 1 \<le> c \<and> c \<le> 1)"
    unfolding off_def using clamp_unit[of "jdiv (jneg b) (jmul (Num 2) a)"] by auto
  from assms have "jmul (jadd (Num (real i)) off) (Num fr) = Num (frequency f)"
    unfolding peakAt_def Let_def a_def[symmetric] b_def[symmetric] off_def[symmetric]
    by (auto split: if_splits jsnum.splits simp del: jmul.simps jadd.simps jdiv.simps)
  with o show ?thesis by auto
qed

lemma peaks_apart:
  assumes p: "peakAt st spectrum threshold fr i = Some f"
    and q: "peakAt st spectrum threshold fr k = Some g"
    and "2 \<le> i" and ik: "i < k"
  shows "i + 3 \<le> k"
proof (rule ccontr)
  assume "\<not> i + 3 \<le> k"
  with ik consider "k = i + 1" | "k = i + 2" by linarith
  then show False
  proof cases
    case 1
    from peakAt_SomeD(1,7)[OF p] peakAt_SomeD(1,6)[OF q] 1
    have "jgt (rd spectrum i) (rd spectrum (i + 1))" "jgt (rd spectrum (i + 1)) (rd spectrum i)"
      by simp_all
    then show False using jgt_asym by blast
  next
    case 2
    from peakAt_SomeD(1,9)[OF p] peakAt_SomeD(1,8)[OF q] 2
    have "jgt (rd spectrum i) (rd spectrum (i + 2))" "jgt (rd spectrum (i + 2)) (rd spectrum i)"
      by simp_all
    then show False using jgt_asym by blast
  qed
qed

lemma peaks_frequency_less:
  assumes p: "peakAt st spectrum threshold (Num fr) i = Some f"
    and q: "peakAt st spectrum threshold (Num fr) k = Some g"
    and "2 \<le> i" and ik: "i < k" and fr: "0 < fr"
  shows "frequency f < frequency g"
proof -
  from peaks_apart[OF p q assms(3) ik] have k: "real i + 3 \<le> real k" by linarith
  from peakAt_frequency[OF p] obtain c where c: "c \<le> 1" "frequency f = (real i + c) * fr" by blast
  from peakAt_frequency[OF q] obtain d where d: "- 1 \<le> d" "frequency g = (real k + d) * fr" by blast
  from c(1) d(1) k have "real i + c < real k + d" by linarith
  with fr show ?thesis unfolding c(2) d(2) by (simp add: mult_strict_right_mono)
qed

lemma findPeaks_distinct:
  assumes "0 < sr"
  shows "distinct (findPeaks st spectrum sr)"
proof -
  let ?th = "jmul (maxOf spectrum) (Num (harmonicThreshold st))"
  let ?fr = "jdiv (Num sr) (Num (real (length spectrum * 2)))"
  have "distinct (List.map_filter (peakAt st spectrum ?th ?fr) [2..<length spectrum - 2])"
  proof (rule distinct_map_filter)
    show "distinct [2..<length spectrum - 2]" by simp
  next
    fix x y u v
    assume x: "x \<in> set [2..<length spectrum - 2]" and y: "y \<in> set [2..<length spectrum - 2]"
      and ne: "x \<noteq> y" and u: "peakAt st spectrum ?th ?fr x = Some u"
      and v: "peakAt st spectrum ?th ?fr y = Some v"
    from x have "spectrum \<noteq> []" by auto
    then have fr: "?fr = Num (sr / real (length spectrum * 2))" by simp
    have pos: "0 < sr / real (length spectrum * 2)" using assms \<open>spectrum \<noteq> []\<close> by simp
    from x y have x2: "2 \<le> x" and y2: "2 \<le> y" by simp_all
    from ne consider "x < y" | "y < x" by linarith
    then show "u \<noteq> v"
    proof cases
      case 1
      from peaks_frequency_less[OF u[unfolded fr] v[unfolded fr] x2 1 pos] show ?thesis by auto
    next
      case 2
      from peaks_frequency_less[OF v[unfolded fr] u[unfolded fr] y2 2 pos] show ?thesis by auto
    qed
  qed
  then show ?thesis by (simp add: findPeaks_def Let_def del: jmul.simps jdiv.simps)
qed

subsection \<open>FFT Engine: what the butterflies preserve\<close>

lemma closedArith_zeroOrNaN: "closedArith zeroOrNaN"
  unfolding closedArith_def zeroOrNaN_def jsub_def by auto

lemma closedArith_finiteOrNaN: "closedArith finiteOrNaN"
proof -
  have m: "finiteOrNaN (jmul (Num c) x)" if "finiteOrNaN x" for c x
    using that by (cases x) (simp_all add: finiteOrNaN_def)
  have a: "finiteOrNaN (jadd a b)" if "finiteOrNaN a" "finiteOrNaN b" for a b
    using that by (cases a; cases b) (simp_all add: finiteOrNaN_def)
  have n: "finiteOrNaN (jneg b)" if "finiteOrNaN b" for b
    using that by (cases b) (simp_all add: finiteOrNaN_def)
  show ?thesis
    unfolding closedArith_def jsub_def using m a n by (simp add: finiteOrNaN_def)
qed

lemma finiteOrNaN_simps [simp]: "finiteOrNaN (Num a)" "finiteOrNaN NaN" "\<not> finiteOrNaN PInf" "\<not> finiteOrNaN NInf"
  by (simp_all add: finiteOrNaN_def)

lemma zeroOrNaN_simps [simp]: "zeroOrNaN (Num a) \<longleftrightarrow> a = 0" "zeroOrNaN NaN" "\<not> zeroOrNaN PInf" "\<not> zeroOrNaN NInf"
  by (simp_all add: zeroOrNaN_def)

lemma rd_all: "closedArith P \<Longrightarrow> list_all P xs \<Longrightarrow> P (rd xs i)"
  by (simp add: rd_def closedArith_def list_all_length)

lemma swapAt_all: "closedArith P \<Longrightarrow> list_all P xs \<Longrightarrow> list_all P (swapAt xs i j)"
  by (simp add: swapAt_def update_all rd_all)

lemma swapAt_length [simp]: "length (swapAt xs i j) = length xs"
  by (simp add: swapAt_def)

lemma bitrevStep_all:
  "closedArith P \<Longrightarrow> bothAll P (snd st) \<Longrightarrow> bothAll P (snd (bitrevStep N i st))"
  by (auto simp: bitrevStep_def bothAll_def Let_def swapAt_all split: prod.splits)

lemma bitReverse_all:
  assumes "closedArith P" "bothAll P st"
  shows "bothAll P (bitReverse N st)"
  unfolding bitReverse_def
  by (rule fold_inv[where Q = "\<lambda>s. bothAll P (snd s)"]) (simp_all add: assms bitrevStep_all)

lemma butterfly_all:
  assumes c: "closedArith P" and st: "bothAll P st"
  shows "bothAll P (butterfly len i j st)"
proof -
  obtain re im where [simp]: "st = (re, im)" by (cases st)
  from st have re: "list_all P re" and im: "list_all P im" by (simp_all add: bothAll_def)
  have r: "P (rd re k)" "P (rd im k)" for k using rd_all[OF c] re im by simp_all
  have mul: "P (jmul (Num a) x)" if "P x" for a x using c that by (simp add: closedArith_def)
  have add: "P (jadd a b)" if "P a" "P b" for a b using c that by (simp add: closedArith_def)
  have sub: "P (jsub a b)" if "P a" "P b" for a b using c that by (simp add: closedArith_def)
  show ?thesis
    by (simp add: butterfly_def Let_def bothAll_def update_all re im r mul add sub del: jmul.simps jadd.simps)
qed

lemma fftStage_all:
  assumes "closedArith P" "bothAll P st"
  shows "bothAll P (fftStage len N st)"
  unfolding fftStage_def
  by (rule fold_inv, rule fold_inv) (simp_all add: assms butterfly_all)

lemma fftStages_all:
  "closedArith P \<Longrightarrow> bothAll P st \<Longrightarrow> bothAll P (fftStages len N st)"
proof (induction len N st rule: fftStages.induct)
  case (1 len N st)
  show ?case
  proof (cases "0 < len \<and> len \<le> N")
    case True
    with 1 show ?thesis by (subst fftStages.simps) (simp add: fftStage_all)
  next
    case False
    with 1 show ?thesis by (subst fftStages.simps) auto
  qed
qed

lemma fft_all:
  assumes c: "closedArith P" and s: "list_all P signal"
  shows "bothAll P (fft signal)"
proof -
  have "list_all P (replicate (length signal) (Num 0))"
    using c by (simp add: closedArith_def list_all_iff)
  with s have "bothAll P (signal, replicate (length signal) (Num 0))" by (simp add: bothAll_def)
  then show ?thesis
    unfolding fft_def Let_def by (intro fftStages_all bitReverse_all c)
qed

lemma butterfly_length: "bothLen n st \<Longrightarrow> bothLen n (butterfly len i j st)"
  by (cases st) (simp add: butterfly_def Let_def bothLen_def)

lemma bitrevStep_length: "bothLen n (snd st) \<Longrightarrow> bothLen n (snd (bitrevStep N i st))"
  by (auto simp: bitrevStep_def bothLen_def Let_def split: prod.splits)

lemma bitReverse_length: "bothLen n st \<Longrightarrow> bothLen n (bitReverse N st)"
  unfolding bitReverse_def
  by (rule fold_inv[where Q = "\<lambda>s. bothLen n (snd s)"]) (simp_all add: bitrevStep_length)

lemma fftStage_length: "bothLen n st \<Longrightarrow> bothLen n (fftStage len N st)"
  unfolding fftStage_def
  by (rule fold_inv, rule fold_inv) (simp_all add: butterfly_length)

lemma fftStages_length: "bothLen n st \<Longrightarrow> bothLen n (fftStages len N st)"
proof (induction len N st rule: fftStages.induct)
  case (1 len N st)
  show ?case
  proof (cases "0 < len \<and> len \<le> N")
    case True
    with 1 show ?thesis by (subst fftStages.simps) (simp add: fftStage_length)
  next
    case False
    with 1 show ?thesis by (subst fftStages.simps) auto
  qed
qed

lemma fft_length: "bothLen (length signal) (fft signal)"
proof -
  have "bothLen (length signal) (signal, replicate (length signal) (Num 0))"
    by (simp add: bothLen_def)
  then show ?thesis
    unfolding fft_def Let_def by (intro fftStages_length bitReverse_length)
qed

lemma fft_lengthD: "fft signal = (re, im) \<Longrightarrow> length re = length signal \<and> length im = length signal"
  using fft_length[of signal] by (simp add: bothLen_def)

lemma length_getMagnitudeSpectrum [simp]: "length (getMagnitudeSpectrum re im) = length re div 2"
  by (simp add: getMagnitudeSpectrum_def)

subsection \<open>FFT Engine: a frame whose length is a power of two\<close>

text \<open>
  For a length \<open>2^k\<close> every index of the bit reversal and of the butterflies is inside the
  arrays, so the transform of finite numbers holds finite numbers only.
\<close>

lemma isNum_simps [simp]: "isNum (Num a)" "\<not> isNum NaN" "\<not> isNum PInf" "\<not> isNum NInf"
  by (simp_all add: isNum_def)

lemma isNum_arith:
  assumes "isNum a" "isNum b"
  shows "isNum (jadd a b)" "isNum (jsub a b)" "isNum (jmul a b)"
  using assms by (cases a; cases b; simp add: jsub_def)+

lemma xor_less_pow2:
  fixes a b :: nat
  assumes "a < 2 ^ k" "b < 2 ^ k"
  shows "a XOR b < 2 ^ k"
proof -
  from assms have "take_bit k a = a" "take_bit k b = b" by (simp_all add: take_bit_nat_eq_self)
  then have "take_bit k (a XOR b) = a XOR b" by simp
  then show ?thesis by (metis take_bit_nat_less_exp)
qed

lemma revLoop_bound:
  "j < 2 ^ k \<Longrightarrow> b < 2 ^ k \<Longrightarrow> fst (revLoop j b) < 2 ^ k \<and> snd (revLoop j b) < 2 ^ k"
proof (induction j b rule: revLoop.induct)
  case (1 j b)
  show ?case
  proof (cases "j AND b \<noteq> 0")
    case True
    have "j XOR b < 2 ^ k" using "1.prems" by (intro xor_less_pow2)
    moreover have "b div 2 < 2 ^ k" using "1.prems"(2) by (meson div_le_dividend le_less_trans)
    ultimately show ?thesis
      using "1.IH"[OF True] True by (subst (1 2) revLoop.simps) simp
  next
    case False
    with "1.prems" show ?thesis by (subst (1 2) revLoop.simps) simp
  qed
qed

lemma swapAt_num:
  assumes "list_all isNum xs" "i < length xs" "j < length xs"
  shows "list_all isNum (swapAt xs i j)"
proof -
  from assms have "isNum (rd xs i)" "isNum (rd xs j)"
    by (simp_all add: rd_def list_all_length)
  with assms(1) show ?thesis
    unfolding swapAt_def by (intro update_all)
qed

lemma bitrevStep_num:
  assumes N: "N = 2 ^ k" "0 < k" and i: "i < N"
    and st: "fst st < N \<and> numState N (snd st)"
  shows "fst (bitrevStep N i st) < N \<and> numState N (snd (bitrevStep N i st))"
proof -
  obtain j re im where s: "st = (j, re, im)" by (cases st)
  obtain j1 b1 where r: "revLoop j (N div 2) = (j1, b1)" by (cases "revLoop j (N div 2)")
  from N have "N div 2 < 2 ^ k" by simp
  with revLoop_bound[of j k "N div 2"] st s N r have "j1 < 2 ^ k" "b1 < 2 ^ k" by simp_all
  then have j2: "j1 XOR b1 < N" unfolding N(1) by (rule xor_less_pow2)
  from st s have l: "length re = N" "length im = N" "list_all isNum re" "list_all isNum im"
    by (simp_all add: numState_def)
  show ?thesis
    unfolding s bitrevStep_def using r j2 l i
    by (simp add: Let_def numState_def swapAt_num)
qed

lemma bitReverse_num:
  assumes N: "N = 2 ^ k" "0 < k" and st: "numState N st"
  shows "numState N (bitReverse N st)"
proof -
  have "fst (fold (bitrevStep N) [1..<N] (0, st)) < N \<and>
        numState N (snd (fold (bitrevStep N) [1..<N] (0, st)))"
  proof (rule fold_inv_set[where Q = "\<lambda>s. fst s < N \<and> numState N (snd s)"])
    show "fst (0, st) < N \<and> numState N (snd (0, st))" using N st by simp
  next
    fix x and s :: "nat \<times> jsnum list \<times> jsnum list"
    assume "x \<in> set [1..<N]" and "fst s < N \<and> numState N (snd s)"
    then show "fst (bitrevStep N x s) < N \<and> numState N (snd (bitrevStep N x s))"
      by (intro bitrevStep_num[OF N]) simp_all
  qed
  then show ?thesis by (simp add: bitReverse_def)
qed

lemma butterfly_num:
  assumes "numState N st" and "i + j + len div 2 < N"
  shows "numState N (butterfly len i j st)"
proof -
  obtain re im where s: "st = (re, im)" by (cases st)
  from assms s have l: "length re = N" "length im = N" and a: "list_all isNum re" "list_all isNum im"
    by (simp_all add: numState_def)
  have r: "isNum (rd re n)" "isNum (rd im n)" if "n < N" for n
    using that l a by (simp_all add: rd_def list_all_length)
  from assms(2) have lo: "i + j < N" by simp
  note [simp del] = jadd.simps jmul.simps
  show ?thesis
    unfolding s butterfly_def Let_def numState_def
    using l a by (simp add: update_all isNum_arith r[OF lo] r[OF assms(2)])
qed

lemma fftStage_num:
  assumes st: "numState N st" and dv: "len dvd N" and ev: "even len" and pos: "0 < len"
  shows "numState N (fftStage len N st)"
  unfolding fftStage_def
proof (rule fold_inv_set[where Q = "numState N"])
  show "numState N st" by (rule st)
next
  fix i and s :: "jsnum list \<times> jsnum list"
  assume i: "i \<in> set (filter (\<lambda>i. i mod len = 0) [0..<N])" and s: "numState N s"
  then have "len dvd i" "i < N" by auto
  with dv pos have il: "i + len \<le> N"
    by (metis dvd_imp_le dvd_diff_nat less_imp_le_nat zero_less_diff le_add_diff_inverse
        add_le_cancel_left)
  show "numState N (fold (butterfly len i) [0..<len div 2] s)"
  proof (rule fold_inv_set[where Q = "numState N"])
    show "numState N s" by (rule s)
  next
    fix j and t :: "jsnum list \<times> jsnum list"
    assume j: "j \<in> set [0..<len div 2]" and t: "numState N t"
    from j ev pos have "j + len div 2 < len" by (auto elim!: evenE)
    with il have "i + j + len div 2 < N" by simp
    with t show "numState N (butterfly len i j t)" by (rule butterfly_num)
  qed
qed

lemma fftStages_num:
  "numState (2 ^ k) st \<Longrightarrow> len = 2 ^ s \<Longrightarrow> 0 < s \<Longrightarrow> numState (2 ^ k) (fftStages len (2 ^ k) st)"
proof (induction len "2 ^ k :: nat" st arbitrary: s rule: fftStages.induct)
  case (1 len st)
  show ?case
  proof (cases "0 < len \<and> len \<le> 2 ^ k")
    case True
    with "1.prems" have "s \<le> k" by simp
    then have dv: "len dvd 2 ^ k" using "1.prems"(2) by (simp add: le_imp_power_dvd)
    have ev: "even len" using "1.prems"(2,3) by simp
    have n: "numState (2 ^ k) (fftStage len (2 ^ k) st)"
      using "1.prems"(1) dv ev True by (intro fftStage_num) simp_all
    have "numState (2 ^ k) (fftStages (len * 2) (2 ^ k) (fftStage len (2 ^ k) st))"
      by (rule "1.hyps"[OF True n, of "Suc s"]) (simp_all add: "1.prems"(2))
    with True show ?thesis by (subst fftStages.simps) simp
  next
    case False
    with "1.prems"(1) show ?thesis by (subst fftStages.simps) auto
  qed
qed

lemma fft_num:
  assumes "length signal = 2 ^ k" and "0 < k" and "list_all isNum signal"
  shows "numState (2 ^ k) (fft signal)"
proof -
  have "numState (2 ^ k) (signal, replicate (2 ^ k) (Num 0))"
    using assms by (simp add: numState_def list_all_iff)
  then have "numState (2 ^ k) (bitReverse (2 ^ k) (signal, replicate (2 ^ k) (Num 0)))"
    by (intro bitReverse_num[OF refl assms(2)])
  then have "numState (2 ^ k) (fftStages 2 (2 ^ k) (bitReverse (2 ^ k) (signal, replicate (2 ^ k) (Num 0))))"
    by (rule fftStages_num[where s = 1]) simp_all
  then show ?thesis by (simp add: fft_def Let_def assms(1))
qed

subsection \<open>FFT Engine: the transform of four samples\<close>

lemma revLoop_vals: "revLoop 0 2 = (0, 2)" "revLoop 2 2 = (0, 1)" "revLoop (Suc 0) 2 = (Suc 0, 2)"
  by (simp_all add: revLoop.simps)

lemma upt4: "[Suc 0..<4] = [Suc 0, 2, 3]" "[0..<4] = [0, Suc 0, 2, 3]" "[0..<2] = [0, Suc 0]"
  by (simp_all add: upt_rec)

lemma bitReverse4:
  "bitReverse 4 ([a, b, c, d], [e, f, g, h]) = ([a, c, b, d], [e, g, f, h])"
  by (simp add: bitReverse_def upt4 bitrevStep_def revLoop_vals swapAt_def rd_def)

lemma fftStages4:
  "fftStages 2 4 st = fftStage 4 4 (fftStage 2 4 st)"
  by (simp add: fftStages.simps)

lemma fft4:
  "fft [a, b, c, d] = fftStage 4 4 (fftStage 2 4 ([a, c, b, d], [Num 0, Num 0, Num 0, Num 0]))"
proof -
  have l: "length [a, b, c, d] = 4" by simp
  have r: "replicate 4 (Num 0) = [Num 0, Num 0, Num 0, Num 0]" by (simp add: numeral_eq_Suc)
  show ?thesis
    unfolding fft_def Let_def l r bitReverse4 fftStages4 ..
qed

lemma fft4_bin0:
  "fst (fft [Num a, Num b, Num c, Num d]) ! 0 = Num (a + c + (b + d))"
  "snd (fft [Num a, Num b, Num c, Num d]) ! 0 = Num 0"
  by (simp_all add: fft4 fftStage_def upt4 butterfly_def rd_def jsub_def Let_def)

subsection \<open>The spectra of the analysis\<close>

lemma windowCoeff_finiteOrNaN: "finiteOrNaN (windowCoeff sz i)"
proof -
  have c: "finiteOrNaN (jcos x)" for x by (cases x) (simp_all add: finiteOrNaN_def)
  have m: "finiteOrNaN (jmul (Num a) x)" if "finiteOrNaN x" for a x
    using that closedArith_finiteOrNaN by (simp add: closedArith_def)
  have s: "finiteOrNaN (jsub a b)" "finiteOrNaN (jadd a b)" if "finiteOrNaN a" "finiteOrNaN b" for a b
    using that closedArith_finiteOrNaN by (simp_all add: closedArith_def)
  have n: "finiteOrNaN (Num a)" for a by (simp add: finiteOrNaN_def)
  show ?thesis
    unfolding windowCoeff_def Let_def by (intro s m c n)
qed

lemma createWindow_finiteOrNaN: "createWindow sz = Inr w \<Longrightarrow> list_all finiteOrNaN w"
  by (auto simp: createWindow_def list_all_iff windowCoeff_finiteOrNaN split: if_splits)

lemma newAudioProcessor_window:
  "newAudioProcessor buf st = Inr p \<Longrightarrow>
     audioBuffer p = buf \<and> settings p = st \<and> 0 \<le> windowSize st \<and>
     windowFunction p = map (windowCoeff (windowSize st)) [0..<nat (windowSize st)] \<and>
     list_all finiteOrNaN (windowFunction p)"
  by (auto simp: newAudioProcessor_def createWindow_def list_all_iff windowCoeff_finiteOrNaN
      split: sum.splits if_splits)

lemma newAudioProcessor_Inr:
  "0 \<le> windowSize st \<Longrightarrow>
   newAudioProcessor buf st =
     Inr \<lparr>audioBuffer = buf, settings = st,
          windowFunction = map (windowCoeff (windowSize st)) [0..<nat (windowSize st)]\<rparr>"
  by (simp add: newAudioProcessor_def createWindow_def)

lemma jmul_sample_finiteOrNaN: "finiteOrNaN w \<Longrightarrow> finiteOrNaN (jmul (rdSample a k) w)"
  by (cases w) (simp_all add: rdSample_def finiteOrNaN_def)

lemma jmul_sample_zeroOrNaN:
  assumes "\<forall>x\<in>set a. x = 0"
  shows "zeroOrNaN (jmul (rdSample a k) w)"
proof -
  have "rdSample a k = Num 0 \<or> rdSample a k = NaN"
    using assms by (auto simp: rdSample_def)
  then show ?thesis by (cases w) auto
qed

lemma centreFrame_finiteOrNaN:
  "list_all finiteOrNaN (windowFunction p) \<Longrightarrow> list_all finiteOrNaN (centreFrame p a)"
  by (auto simp: centreFrame_def Let_def list_all_iff intro!: jmul_sample_finiteOrNaN
       rd_all[OF closedArith_finiteOrNaN] simp del: jmul.simps)

lemma centreFrame_zeroOrNaN: "\<forall>x\<in>set a. x = 0 \<Longrightarrow> list_all zeroOrNaN (centreFrame p a)"
  by (auto simp: centreFrame_def Let_def list_all_iff intro!: jmul_sample_zeroOrNaN simp del: jmul.simps)

lemma windowedFrame_finiteOrNaN:
  "list_all finiteOrNaN w \<Longrightarrow> list_all finiteOrNaN (windowedFrame st w a k)"
  by (auto simp: windowedFrame_def Let_def list_all_iff intro!: jmul_sample_finiteOrNaN
       rd_all[OF closedArith_finiteOrNaN] simp del: jmul.simps)

lemma magnitude_finiteOrNaN:
  assumes "bothAll finiteOrNaN (re, im)"
  shows "list_all finiteOrNaN (getMagnitudeSpectrum re im)"
proof -
  have sq: "finiteOrNaN (jsqrt (jadd (jmul a a) (jmul b b)))" if "finiteOrNaN a" "finiteOrNaN b" for a b
    using that by (cases a; cases b) (simp_all add: finiteOrNaN_def)
  have "finiteOrNaN (rd re i)" "finiteOrNaN (rd im i)" for i
    using assms rd_all[OF closedArith_finiteOrNaN] by (simp_all add: bothAll_def)
  then show ?thesis
    by (simp add: getMagnitudeSpectrum_def list_all_iff sq del: jmul.simps jadd.simps jsqrt.simps)
qed

lemma magnitude_zeroOrNaN:
  assumes "bothAll zeroOrNaN (re, im)"
  shows "list_all zeroOrNaN (getMagnitudeSpectrum re im)"
proof -
  have sq: "zeroOrNaN (jsqrt (jadd (jmul a a) (jmul b b)))" if "zeroOrNaN a" "zeroOrNaN b" for a b
    using that by (auto simp: zeroOrNaN_def)
  have "zeroOrNaN (rd re i)" "zeroOrNaN (rd im i)" for i
    using assms rd_all[OF closedArith_zeroOrNaN] by (simp_all add: bothAll_def)
  then show ?thesis
    by (simp add: getMagnitudeSpectrum_def list_all_iff sq del: jmul.simps jadd.simps jsqrt.simps)
qed

lemma centreSpectrum_finiteOrNaN:
  assumes "list_all finiteOrNaN (windowFunction p)"
  shows "list_all finiteOrNaN (centreSpectrum p a)"
proof -
  obtain re im where f: "fft (centreFrame p a) = (re, im)" by (cases "fft (centreFrame p a)")
  have "bothAll finiteOrNaN (fft (centreFrame p a))"
    by (rule fft_all[OF closedArith_finiteOrNaN centreFrame_finiteOrNaN[OF assms]])
  with f show ?thesis by (simp add: centreSpectrum_def magnitude_finiteOrNaN)
qed

lemma frameMagnitudes_finiteOrNaN:
  assumes "list_all finiteOrNaN w"
  shows "list_all finiteOrNaN (frameMagnitudes st w a k)"
proof -
  obtain re im where f: "fft (windowedFrame st w a k) = (re, im)"
    by (cases "fft (windowedFrame st w a k)")
  have "bothAll finiteOrNaN (fft (windowedFrame st w a k))"
    by (rule fft_all[OF closedArith_finiteOrNaN windowedFrame_finiteOrNaN[OF assms]])
  with f show ?thesis by (simp add: frameMagnitudes_def magnitude_finiteOrNaN)
qed

lemma centreSpectrum_zeroOrNaN:
  assumes "\<forall>x\<in>set a. x = 0"
  shows "list_all zeroOrNaN (centreSpectrum p a)"
proof -
  obtain re im where f: "fft (centreFrame p a) = (re, im)" by (cases "fft (centreFrame p a)")
  have "bothAll zeroOrNaN (fft (centreFrame p a))"
    by (rule fft_all[OF closedArith_zeroOrNaN centreFrame_zeroOrNaN[OF assms]])
  with f show ?thesis by (simp add: centreSpectrum_def magnitude_zeroOrNaN)
qed

lemma jmax_zeroOrNaN: "zeroOrNaN m \<or> m = NInf \<Longrightarrow> zeroOrNaN x \<Longrightarrow> zeroOrNaN (jmax m x)"
  by (auto simp: zeroOrNaN_def jmax_def)

lemma fold_jmax_zeroOrNaN:
  "list_all zeroOrNaN xs \<Longrightarrow> zeroOrNaN m \<or> (m = NInf \<and> xs \<noteq> []) \<Longrightarrow>
   zeroOrNaN (fold (\<lambda>x m. jmax m x) xs m)"
proof (induction xs arbitrary: m)
  case Nil
  then show ?case by simp
next
  case (Cons x xs)
  from Cons.prems have "zeroOrNaN (jmax m x)" by (auto intro: jmax_zeroOrNaN)
  with Cons show ?case by simp
qed

lemma maxOf_zeroOrNaN: "list_all zeroOrNaN xs \<Longrightarrow> xs \<noteq> [] \<Longrightarrow> zeroOrNaN (maxOf xs)"
  unfolding maxOf_def by (rule fold_jmax_zeroOrNaN) simp_all

lemma peakAt_zeroOrNaN:
  "zeroOrNaN (rd spectrum i) \<Longrightarrow> zeroOrNaN threshold \<Longrightarrow> peakAt st spectrum threshold fr i = None"
  by (auto simp: peakAt_def Let_def zeroOrNaN_def jgt_def)

lemma findPeaks_zeroOrNaN:
  assumes "list_all zeroOrNaN spectrum"
  shows "findPeaks st spectrum sr = []"
proof -
  have "peakAt st spectrum (jmul (maxOf spectrum) (Num (harmonicThreshold st)))
          (jdiv (Num sr) (Num (real (length spectrum * 2)))) i = None"
    if "i \<in> set [2..<length spectrum - 2]" for i
  proof -
    from that have ne: "spectrum \<noteq> []" by auto
    have "zeroOrNaN (jmul (maxOf spectrum) (Num (harmonicThreshold st)))"
      using maxOf_zeroOrNaN[OF assms ne] by (auto simp: zeroOrNaN_def)
    moreover have "zeroOrNaN (rd spectrum i)"
      using assms by (rule rd_all[OF closedArith_zeroOrNaN])
    ultimately show ?thesis by (rule peakAt_zeroOrNaN[rotated])
  qed
  then have "List.map_filter (peakAt st spectrum (jmul (maxOf spectrum) (Num (harmonicThreshold st)))
          (jdiv (Num sr) (Num (real (length spectrum * 2))))) [2..<length spectrum - 2] = []"
    unfolding List.map_filter_def by (simp add: filter_empty_conv del: jmul.simps jdiv.simps)
  then show ?thesis by (simp add: findPeaks_def Let_def del: jmul.simps jdiv.simps)
qed

subsection \<open>Harmonic Grouper\<close>

lemma detectHarmonics_Nil: "detectHarmonics [] = []"
  by (simp add: detectHarmonics_def harmonicGroups_def)

lemma matchStep_fold:
  "fst (fold (matchStep fs P t) js st) = Some j \<Longrightarrow> fst st = Some j \<or> (j \<in> set js \<and> j \<notin> P)"
proof (induction js arbitrary: st)
  case Nil
  then show ?case by simp
next
  case (Cons x xs)
  from Cons.prems have "fst (fold (matchStep fs P t) xs (matchStep fs P t x st)) = Some j" by simp
  from Cons.IH[OF this] show ?case
  proof
    assume "fst (matchStep fs P t x st) = Some j"
    then show ?thesis
      by (cases st) (auto simp: matchStep_def Let_def split: if_splits)
  next
    assume "j \<in> set xs \<and> j \<notin> P"
    then show ?thesis by simp
  qed
qed

lemma findMatch_SomeD:
  "findMatch fs P i t = Some j \<Longrightarrow> i < j \<and> j < length fs \<and> j \<notin> P"
  unfolding findMatch_def by (drule matchStep_fold) auto

lemma matchStep_target:
  "fst (fold (matchStep fs P t) js st) = Some j \<Longrightarrow> fst st = Some j \<or> t \<noteq> 0"
proof (induction js arbitrary: st)
  case Nil
  then show ?case by simp
next
  case (Cons x xs)
  from Cons.prems have "fst (fold (matchStep fs P t) xs (matchStep fs P t x st)) = Some j" by simp
  from Cons.IH[OF this] show ?case
    by (cases st) (auto simp: matchStep_def Let_def split: if_splits)
qed

lemma findMatch_target: "findMatch fs P i t = Some j \<Longrightarrow> t \<noteq> 0"
  unfolding findMatch_def by (drule matchStep_target) auto

lemma harmonicStep_inv:
  assumes "seriesInv (length fs) i P0 st"
  shows "seriesInv (length fs) i P0 (harmonicStep fs i h st)"
proof -
  obtain series processed where st: "st = (series, processed)" by (cases st)
  show ?thesis
  proof (cases "findMatch fs processed i (frequency (fs ! i) * real h)")
    case None
    with assms st show ?thesis by (simp add: harmonicStep_def Let_def)
  next
    case (Some j)
    from findMatch_SomeD[OF Some] have j: "i < j" "j < length fs" "j \<notin> processed" by simp_all
    from assms st j Some show ?thesis
      by (auto simp: harmonicStep_def Let_def seriesInv_def)
  qed
qed

lemma seriesInv_init: "i \<notin> P0 \<Longrightarrow> i < n \<Longrightarrow> seriesInv n i P0 ([i], insert i P0)"
  by (simp add: seriesInv_def)

lemma candidateStep_inv:
  assumes i: "i < length fs" and inv: "groupsInv (length fs) st"
  shows "groupsInv (length fs) (candidateStep fs i st)"
proof -
  obtain groups processed where st: "st = (groups, processed)" by (cases st)
  show ?thesis
  proof (cases "i \<in> processed")
    case True
    with inv st show ?thesis by (simp add: candidateStep_def)
  next
    case False
    obtain series processed' where
      f: "fold (harmonicStep fs i) [2..<21] ([i], insert i processed) = (series, processed')"
      by (cases "fold (harmonicStep fs i) [2..<21] ([i], insert i processed)")
    have "seriesInv (length fs) i processed (fold (harmonicStep fs i) [2..<21] ([i], insert i processed))"
      by (rule fold_inv[where Q = "seriesInv (length fs) i processed"])
         (simp_all add: harmonicStep_inv seriesInv_init False i)
    with f have s: "processed' = processed \<union> set series" "distinct series"
      "set series \<inter> processed = {}" "series \<noteq> []" "hd series = i"
      "\<forall>j\<in>set series. i \<le> j \<and> j < length fs"
      by (simp_all add: seriesInv_def)
    from inv st have g: "distinct (concat groups)" "set (concat groups) \<subseteq> processed"
      "\<forall>g\<in>set groups. g \<noteq> [] \<and> 3 \<le> length g \<and> (\<forall>j\<in>set g. hd g \<le> j \<and> j < length fs)"
      by (simp_all add: groupsInv_def)
    have c: "candidateStep fs i st =
      (if 3 \<le> length series then (groups @ [series], processed') else (groups, processed'))"
      using st False f by (simp add: candidateStep_def)
    show ?thesis
    proof (cases "3 \<le> length series")
      case True
      have "set (concat groups) \<inter> set series = {}" using g(2) s(3) by blast
      with True s g show ?thesis
        unfolding c groupsInv_def by auto
    next
      case False
      with s g show ?thesis unfolding c groupsInv_def by auto
    qed
  qed
qed

lemma harmonicGroups_inv:
  "groupsInv (length fs) (fold (candidateStep fs) [0..<min (length fs) 50] ([], {}))"
proof (rule fold_inv_set)
  show "groupsInv (length fs) ([], {})" by (simp add: groupsInv_def)
next
  fix x s
  assume "x \<in> set [0..<min (length fs) 50]" and "groupsInv (length fs) s"
  then show "groupsInv (length fs) (candidateStep fs x s)"
    by (intro candidateStep_inv) simp_all
qed

lemma harmonicGroups_props:
  shows "distinct (concat (harmonicGroups fs))"
    and "g \<in> set (harmonicGroups fs) \<Longrightarrow>
           g \<noteq> [] \<and> 3 \<le> length g \<and> (\<forall>j\<in>set g. hd g \<le> j \<and> j < length fs)"
  using harmonicGroups_inv[of fs]
  by (auto simp: harmonicGroups_def groupsInv_def split: prod.splits)

lemma harmonicStep_nonzero:
  assumes "1 < length (fst st) \<longrightarrow> frequency (fs ! i) \<noteq> 0"
  shows "1 < length (fst (harmonicStep fs i h st)) \<longrightarrow> frequency (fs ! i) \<noteq> 0"
proof (cases st)
  case (Pair series processed)
  show ?thesis
  proof (cases "findMatch fs processed i (frequency (fs ! i) * real h)")
    case None
    with assms Pair show ?thesis by (simp add: harmonicStep_def Let_def)
  next
    case (Some j)
    from findMatch_target[OF Some] have "frequency (fs ! i) \<noteq> 0" by auto
    then show ?thesis by simp
  qed
qed

lemma candidateStep_nonzero:
  assumes i: "i < length fs" and inv: "\<forall>g\<in>set (fst st). frequency (fs ! hd g) \<noteq> 0"
  shows "\<forall>g\<in>set (fst (candidateStep fs i st)). frequency (fs ! hd g) \<noteq> 0"
proof (cases st)
  case (Pair groups processed)
  show ?thesis
  proof (cases "i \<in> processed")
    case True
    with inv Pair show ?thesis by (simp add: candidateStep_def)
  next
    case False
    obtain series processed' where
      f: "fold (harmonicStep fs i) [2..<21] ([i], insert i processed) = (series, processed')"
      by (cases "fold (harmonicStep fs i) [2..<21] ([i], insert i processed)")
    have "seriesInv (length fs) i processed (fold (harmonicStep fs i) [2..<21] ([i], insert i processed))"
      by (rule fold_inv[where Q = "seriesInv (length fs) i processed"])
         (simp_all add: harmonicStep_inv seriesInv_init False i)
    with f have hd: "hd series = i" by (simp add: seriesInv_def)
    have "1 < length (fst (fold (harmonicStep fs i) [2..<21] ([i], insert i processed)))
            \<longrightarrow> frequency (fs ! i) \<noteq> 0"
      by (rule fold_inv[where Q = "\<lambda>s. 1 < length (fst s) \<longrightarrow> frequency (fs ! i) \<noteq> 0"])
         (simp_all add: harmonicStep_nonzero)
    with f have nz: "3 \<le> length series \<Longrightarrow> frequency (fs ! i) \<noteq> 0" by simp
    have c: "candidateStep fs i st =
      (if 3 \<le> length series then (groups @ [series], processed') else (groups, processed'))"
      using Pair False f by (simp add: candidateStep_def)
    from inv Pair nz hd show ?thesis unfolding c by auto
  qed
qed

lemma harmonicGroups_fundamental_nonzero:
  "g \<in> set (harmonicGroups fs) \<Longrightarrow> frequency (fs ! hd g) \<noteq> 0"
proof -
  have "\<forall>g\<in>set (fst (fold (candidateStep fs) [0..<min (length fs) 50] ([], {}))).
          frequency (fs ! hd g) \<noteq> 0"
  proof (rule fold_inv_set)
    show "\<forall>g\<in>set (fst (([], {}) :: nat list list \<times> nat set)). frequency (fs ! hd g) \<noteq> 0" by simp
  next
    fix x and s :: "nat list list \<times> nat set"
    assume "x \<in> set [0..<min (length fs) 50]" and "\<forall>g\<in>set (fst s). frequency (fs ! hd g) \<noteq> 0"
    then show "\<forall>g\<in>set (fst (candidateStep fs x s)). frequency (fs ! hd g) \<noteq> 0"
      by (intro candidateStep_nonzero) simp_all
  qed
  then show "g \<in> set (harmonicGroups fs) \<Longrightarrow> frequency (fs ! hd g) \<noteq> 0"
    by (simp add: harmonicGroups_def)
qed

lemma mkSeries_fields:
  "overtones (mkSeries fs g) = map (\<lambda>k. fs ! k) g"
  "fundamental (mkSeries fs g) = frequency (hd (map (\<lambda>k. fs ! k) g))"
  by (simp_all add: mkSeries_def Let_def)

lemma set_detectHarmonics:
  "set (detectHarmonics fs) = mkSeries fs ` set (harmonicGroups fs)"
  by (simp add: detectHarmonics_def)

lemma harmonicGroups_distinct: "distinct (harmonicGroups fs)"
proof -
  have "distinct (removeAll [] (harmonicGroups fs))"
    using harmonicGroups_props(1)[of fs] by (simp add: distinct_concat_iff)
  moreover have "[] \<notin> set (harmonicGroups fs)"
    using harmonicGroups_props(2)[of "[]" fs] by auto
  ultimately show ?thesis by simp
qed

lemma harmonicGroups_disjoint:
  "g \<in> set (harmonicGroups fs) \<Longrightarrow> g' \<in> set (harmonicGroups fs) \<Longrightarrow> g \<noteq> g' \<Longrightarrow>
   set g \<inter> set g' = {}"
  using harmonicGroups_props(1)[of fs] by (simp add: distinct_concat_iff)

lemma mkSeries_inj:
  assumes d: "distinct fs" and g: "g \<in> set (harmonicGroups fs)" "g' \<in> set (harmonicGroups fs)"
    and e: "mkSeries fs g = mkSeries fs g'"
  shows "g = g'"
proof -
  from e have m: "map (\<lambda>k. fs ! k) g = map (\<lambda>k. fs ! k) g'"
    by (metis mkSeries_fields(1))
  have "\<forall>j\<in>set g \<union> set g'. j < length fs"
    using harmonicGroups_props(2)[OF g(1)] harmonicGroups_props(2)[OF g(2)] by auto
  with d have "inj_on (\<lambda>k. fs ! k) (set g \<union> set g')" by (simp add: inj_on_nth)
  with m show ?thesis by (simp add: inj_on_map_eq_map)
qed

text \<open>
  C10: in every series returned by the Harmonic Grouper the first element of \<open>overtones\<close>
  is the candidate fundamental, \<open>fundamental\<close> is its frequency, and its magnitude is at
  least that of every member; no peak is a member of two returned series. The input is
  the list of the Peak Detector: sorted by descending magnitude, each peak an object of
  its own (the list has no repetition). Without any assumption, the index lists of the
  retained series share no index.
\<close>

theorem detectHarmonics_series:
  assumes srt: "sorted_wrt (\<lambda>a b. magnitude b \<le> magnitude a) features"
    and dst: "distinct features"
  shows "(\<forall>s\<in>set (detectHarmonics features).
            \<exists>i<length features. overtones s \<noteq> [] \<and> hd (overtones s) = features ! i \<and>
               fundamental s = frequency (features ! i) \<and>
               (\<forall>m\<in>set (overtones s). magnitude m \<le> magnitude (hd (overtones s)))) \<and>
         (\<forall>p q. p < length (detectHarmonics features) \<and> q < length (detectHarmonics features) \<and>
                p \<noteq> q \<longrightarrow>
            set (overtones (detectHarmonics features ! p)) \<inter>
            set (overtones (detectHarmonics features ! q)) = {}) \<and>
         distinct (concat (harmonicGroups features))"
proof (intro conjI ballI allI impI)
  fix s assume "s \<in> set (detectHarmonics features)"
  then obtain g where g: "g \<in> set (harmonicGroups features)" and s: "s = mkSeries features g"
    by (auto simp: set_detectHarmonics)
  from harmonicGroups_props(2)[OF g]
  have ne: "g \<noteq> []" and rng: "\<forall>j\<in>set g. hd g \<le> j \<and> j < length features" by simp_all
  from ne rng have h: "hd g < length features" by (cases g) simp_all
  have o: "overtones s = map (\<lambda>k. features ! k) g" by (simp add: s mkSeries_fields)
  have hd: "hd (overtones s) = features ! hd g" using ne by (simp add: o hd_map)
  have mag: "magnitude m \<le> magnitude (hd (overtones s))" if "m \<in> set (overtones s)" for m
  proof -
    from that o obtain j where j: "j \<in> set g" "m = features ! j" by auto
    with rng have "hd g \<le> j" "j < length features" by simp_all
    then show ?thesis
      using sorted_wrt_nth_less[OF srt, of "hd g" j] j(2) hd by (cases "hd g = j") auto
  qed
  show "\<exists>i<length features. overtones s \<noteq> [] \<and> hd (overtones s) = features ! i \<and>
          fundamental s = frequency (features ! i) \<and>
          (\<forall>m\<in>set (overtones s). magnitude m \<le> magnitude (hd (overtones s)))"
    using h ne o hd mag by (intro exI[of _ "hd g"]) (simp add: s mkSeries_fields hd_map)
next
  fix p q
  assume pq: "p < length (detectHarmonics features) \<and> q < length (detectHarmonics features) \<and> p \<noteq> q"
  let ?r = "detectHarmonics features"
  have "distinct (map (mkSeries features) (harmonicGroups features))"
    unfolding distinct_map
    using harmonicGroups_distinct mkSeries_inj[OF dst] by (auto simp: inj_on_def)
  then have dr: "distinct ?r" by (simp add: detectHarmonics_def)
  with pq have ne: "?r ! p \<noteq> ?r ! q" by (simp add: nth_eq_iff_index_eq)
  from pq have "?r ! p \<in> set ?r" "?r ! q \<in> set ?r" by simp_all
  then obtain g g' where g: "g \<in> set (harmonicGroups features)" "?r ! p = mkSeries features g"
    and g': "g' \<in> set (harmonicGroups features)" "?r ! q = mkSeries features g'"
    by (auto simp: set_detectHarmonics)
  with ne have "g \<noteq> g'" by auto
  from harmonicGroups_disjoint[OF g(1) g'(1) this] have dj: "set g \<inter> set g' = {}" .
  have "\<forall>j\<in>set g \<union> set g'. j < length features"
    using harmonicGroups_props(2)[OF g(1)] harmonicGroups_props(2)[OF g'(1)] by auto
  with dst have inj: "inj_on (\<lambda>k. features ! k) (set g \<union> set g')" by (simp add: inj_on_nth)
  have "(\<lambda>k. features ! k) ` set g \<inter> (\<lambda>k. features ! k) ` set g' = {}"
    using inj_on_image_Int[OF inj, of "set g" "set g'"] dj by simp
  then show "set (overtones (?r ! p)) \<inter> set (overtones (?r ! q)) = {}"
    by (simp add: g(2) g'(2) mkSeries_fields)
next
  show "distinct (concat (harmonicGroups features))" by (rule harmonicGroups_props(1))
qed

theorem detectHarmonics_series_witness:
  "sorted_wrt (\<lambda>a b. magnitude b \<le> magnitude a)
     [\<lparr>frequency = 100, magnitude = 10, phase = 0, bandwidth = 1\<rparr>,
      \<lparr>frequency = 200, magnitude = 9, phase = 0, bandwidth = 1\<rparr>,
      \<lparr>frequency = 300, magnitude = 8, phase = 0, bandwidth = 1\<rparr>,
      \<lparr>frequency = 130, magnitude = 7, phase = 0, bandwidth = 1\<rparr>,
      \<lparr>frequency = 260, magnitude = 6, phase = 0, bandwidth = 1\<rparr>,
      \<lparr>frequency = 390, magnitude = 5, phase = 0, bandwidth = 1\<rparr>] \<and>
   harmonicGroups
     [\<lparr>frequency = 100, magnitude = 10, phase = 0, bandwidth = 1\<rparr>,
      \<lparr>frequency = 200, magnitude = 9, phase = 0, bandwidth = 1\<rparr>,
      \<lparr>frequency = 300, magnitude = 8, phase = 0, bandwidth = 1\<rparr>,
      \<lparr>frequency = 130, magnitude = 7, phase = 0, bandwidth = 1\<rparr>,
      \<lparr>frequency = 260, magnitude = 6, phase = 0, bandwidth = 1\<rparr>,
      \<lparr>frequency = 390, magnitude = 5, phase = 0, bandwidth = 1\<rparr>] = [[0, 1, 2], [3, 4, 5]] \<and>
   set (overtones (detectHarmonics
     [\<lparr>frequency = 100, magnitude = 10, phase = 0, bandwidth = 1\<rparr>,
      \<lparr>frequency = 200, magnitude = 9, phase = 0, bandwidth = 1\<rparr>,
      \<lparr>frequency = 300, magnitude = 8, phase = 0, bandwidth = 1\<rparr>,
      \<lparr>frequency = 130, magnitude = 7, phase = 0, bandwidth = 1\<rparr>,
      \<lparr>frequency = 260, magnitude = 6, phase = 0, bandwidth = 1\<rparr>,
      \<lparr>frequency = 390, magnitude = 5, phase = 0, bandwidth = 1\<rparr>] ! 0)) \<inter>
   set (overtones (detectHarmonics
     [\<lparr>frequency = 100, magnitude = 10, phase = 0, bandwidth = 1\<rparr>,
      \<lparr>frequency = 200, magnitude = 9, phase = 0, bandwidth = 1\<rparr>,
      \<lparr>frequency = 300, magnitude = 8, phase = 0, bandwidth = 1\<rparr>,
      \<lparr>frequency = 130, magnitude = 7, phase = 0, bandwidth = 1\<rparr>,
      \<lparr>frequency = 260, magnitude = 6, phase = 0, bandwidth = 1\<rparr>,
      \<lparr>frequency = 390, magnitude = 5, phase = 0, bandwidth = 1\<rparr>] ! 1)) = {}"
proof -
  let ?fs = "[\<lparr>frequency = 100, magnitude = 10, phase = 0, bandwidth = 1\<rparr>,
      \<lparr>frequency = 200, magnitude = 9, phase = 0, bandwidth = 1\<rparr>,
      \<lparr>frequency = 300, magnitude = 8, phase = 0, bandwidth = 1\<rparr>,
      \<lparr>frequency = 130, magnitude = 7, phase = 0, bandwidth = 1\<rparr>,
      \<lparr>frequency = 260, magnitude = 6, phase = 0, bandwidth = 1\<rparr>,
      \<lparr>frequency = 390, magnitude = 5, phase = 0, bandwidth = 1 :: real\<rparr>]"
  have s: "sorted_wrt (\<lambda>a b. magnitude b \<le> magnitude a) ?fs" by simp
  have d: "distinct ?fs" by simp
  have g: "harmonicGroups ?fs = [[0, 1, 2], [3, 4, 5]]" by code_simp
  have l: "length (detectHarmonics ?fs) = 2" by (simp add: detectHarmonics_def g)
  from detectHarmonics_series[OF s d] l
  have "set (overtones (detectHarmonics ?fs ! 0)) \<inter> set (overtones (detectHarmonics ?fs ! 1)) = {}"
    by (metis (no_types, lifting) zero_less_numeral one_less_numeral_iff semiring_norm(76) zero_neq_one)
  with s g show ?thesis by blast
qed

subsection \<open>Envelope Extractor\<close>

lemma rdAt_int: "0 \<le> k \<Longrightarrow> k < int (length a) \<Longrightarrow> rdAt a (of_int k) = Num (a ! nat k)"
  by (simp add: rdAt_def rdSample_def)

lemma envelopeLoop_int:
  assumes "0 \<le> k" and "m \<le> int (length a)"
  shows "envelopeLoop a (of_int m) (of_int k) (Num s) c =
           (if k < m then (Num (s + (\<Sum>j = nat k..<nat m. \<bar>a ! j\<bar>)), c + nat (m - k))
            else (Num s, c))"
  using assms
proof (induction "nat (m - k)" arbitrary: k s c)
  case 0
  then have "\<not> k < m" by simp
  then show ?case by (subst envelopeLoop.simps) simp
next
  case (Suc n)
  then have lt: "k < m" by linarith
  have step: "envelopeLoop a (of_int m) (of_int k) (Num s) c =
        envelopeLoop a (of_int m) (of_int (k + 1)) (Num (s + \<bar>a ! nat k\<bar>)) (c + 1)"
    using lt Suc.prems by (subst envelopeLoop.simps) (simp add: rdAt_int)
  have n: "n = nat (m - (k + 1))" using Suc.hyps(2) by linarith
  have ih: "envelopeLoop a (of_int m) (of_int (k + 1)) (Num (s + \<bar>a ! nat k\<bar>)) (c + 1) =
        (if k + 1 < m
         then (Num (s + \<bar>a ! nat k\<bar> + (\<Sum>j = nat (k + 1)..<nat m. \<bar>a ! j\<bar>)), c + 1 + nat (m - (k + 1)))
         else (Num (s + \<bar>a ! nat k\<bar>), c + 1))"
    using Suc.hyps(1)[OF n] Suc.prems by simp
  have nk: "nat (k + 1) = Suc (nat k)" using Suc.prems(1) by simp
  have split: "(\<Sum>j = nat k..<nat m. \<bar>a ! j\<bar>) = \<bar>a ! nat k\<bar> + (\<Sum>j = Suc (nat k)..<nat m. \<bar>a ! j\<bar>)"
    using lt Suc.prems(1) by (simp add: sum.atLeast_Suc_lessThan)
  show ?case
  proof (cases "k + 1 < m")
    case True
    with lt show ?thesis unfolding step ih nk split by (simp add: nat_diff_distrib)
  next
    case False
    with lt have "m = k + 1" by simp
    with lt Suc.prems(1) show ?thesis unfolding step ih by (simp add: nk)
  qed
qed

lemma envelopeAt_even:
  assumes "i < length a"
  shows "envelopeAt a (2 * h) i =
     (let lo = nat (max 0 (int i - h)); hi = nat (min (int (length a)) (int i + h))
      in Num (if lo < hi then (\<Sum>j = lo..<hi. \<bar>a ! j\<bar>) / real (hi - lo) else 0))"
proof -
  define k where "k = max 0 (int i - h)"
  define m where "m = min (int (length a)) (int i + h)"
  have s: "max 0 (real i - real_of_int (2 * h) / 2) = of_int k" by (simp add: k_def)
  have e: "min (real (length a)) (real i + real_of_int (2 * h) / 2) = of_int m" by (simp add: m_def)
  have k0: "0 \<le> k" and ml: "m \<le> int (length a)" by (simp_all add: k_def m_def)
  have nd: "nat (m - k) = nat m - nat k" using k0 by (simp add: nat_diff_distrib)
  have lt: "k < m \<longleftrightarrow> nat k < nat m" using k0 by auto
  have "envelopeAt a (2 * h) i =
      Num (if nat k < nat m then (\<Sum>j = nat k..<nat m. \<bar>a ! j\<bar>) / real (nat m - nat k) else 0)"
  proof (cases "k < m")
    case True
    with lt have "nat k < nat m" by simp
    with True show ?thesis
      unfolding envelopeAt_def Let_def s e envelopeLoop_int[OF k0 ml] by (simp add: nd)
  next
    case False
    with lt have "\<not> nat k < nat m" by simp
    with False show ?thesis
      unfolding envelopeAt_def Let_def s e envelopeLoop_int[OF k0 ml] by simp
  qed
  then show ?thesis unfolding Let_def k_def m_def .
qed

lemma calculateEnvelope_even_aux:
  assumes "\<lfloor>sr * (1 / 100)\<rfloor> = 2 * h" and "i < length a"
  shows "calculateEnvelope sr a ! i =
     (let lo = nat (max 0 (int i - h)); hi = nat (min (int (length a)) (int i + h))
      in Num (if lo < hi then (\<Sum>j = lo..<hi. \<bar>a ! j\<bar>) / real (hi - lo) else 0))"
  using assms by (simp add: calculateEnvelope_def envelopeAt_even del: max.bounded_iff min.bounded_iff)

lemma envelopeLoop_NaN:
  "\<exists>c'. envelopeLoop a stop j NaN c = (NaN, c') \<and> c \<le> c'"
proof (induction a stop j "NaN" c rule: envelopeLoop.induct)
  case (1 audioData stop j count)
  show ?case
  proof (cases "j < stop")
    case True
    from 1[OF True] obtain c' where
      "envelopeLoop audioData stop (j + 1) NaN (count + 1) = (NaN, c')" "count + 1 \<le> c'"
      by auto
    with True show ?thesis by (subst envelopeLoop.simps) simp
  next
    case False
    then show ?thesis by (subst envelopeLoop.simps) simp
  qed
qed

lemma envelopeLoop_fractional:
  assumes "j < stop" and "j \<noteq> of_int \<lfloor>j\<rfloor>"
  shows "\<exists>c'. envelopeLoop a stop j acc c = (NaN, c') \<and> c < c'"
proof -
  have "jadd acc (jabs (rdAt a j)) = NaN"
    using assms(2) by (cases acc) (simp_all add: rdAt_def)
  with assms(1) have "envelopeLoop a stop j acc c = envelopeLoop a stop (j + 1) NaN (c + 1)"
    by (subst envelopeLoop.simps) simp
  with envelopeLoop_NaN[of a stop "j + 1" "c + 1"] show ?thesis by auto
qed

lemma envelopeAt_odd:
  assumes "0 \<le> h" and "i < length a" and "h < int i"
  shows "envelopeAt a (2 * h + 1) i = NaN"
proof -
  define start where "start = max 0 (real i - real_of_int (2 * h + 1) / 2)"
  define stop where "stop = min (real (length a)) (real i + real_of_int (2 * h + 1) / 2)"
  have st: "start = of_int (int i - h - 1) + 1 / 2"
    using assms(3) by (simp add: start_def field_simps)
  then have fl: "\<lfloor>start\<rfloor> = int i - h - 1" by (simp add: floor_unique)
  have frac: "start \<noteq> of_int \<lfloor>start\<rfloor>" unfolding fl using st by simp
  have "start < real i" using assms(1) st by simp
  moreover have "real i < stop" using assms(1,2) by (simp add: stop_def)
  ultimately have lt: "start < stop" by simp
  from envelopeLoop_fractional[OF lt frac, of a "Num 0" 0]
  obtain c' where "envelopeLoop a stop start (Num 0) 0 = (NaN, c')" "0 < c'" by auto
  then show ?thesis
    unfolding envelopeAt_def Let_def start_def[symmetric] stop_def[symmetric] by simp
qed

lemma calculateEnvelope_44100:
  "calculateEnvelope 44100 (replicate 222 (1 / 2)) ! 221 = NaN"
proof -
  have "envelopeAt (replicate 222 (1 / 2)) (2 * 220 + 1) 221 = NaN"
    by (rule envelopeAt_odd) simp_all
  then show ?thesis by (simp add: calculateEnvelope_def)
qed

text \<open>
  C8, as the specification states it, takes a window of \<open>round(sampleRate * 0.01)\<close>
  samples. The source takes \<open>Math.floor\<close>: at 22050 Hz the window has 220 samples, not
  221, and for 110 zeros followed by a 1 the first envelope entry is 0, where the
  specification's window reaches the 1 and gives 1/111.
\<close>

theorem envelope_width_floor_not_round:
  "calculateEnvelope 22050 (replicate 110 0 @ [1]) ! 0 = Num 0 \<and>
   specEnvelope 22050 (replicate 110 0 @ [1]) 0 = 1 / 111"
proof -
  have w: "\<lfloor>22050 * (1 / 100) :: real\<rfloor> = 2 * 110" by simp
  have z: "(\<Sum>j = 0..<110. \<bar>(replicate 110 0 @ [1 :: real]) ! j\<bar>) = 0"
    by (simp add: nth_append)
  have c: "calculateEnvelope 22050 (replicate 110 0 @ [1]) ! 0 = Num 0"
    using calculateEnvelope_even_aux[OF w, of 0 "replicate 110 0 @ [1]"]
    by (simp add: Let_def z)
  have r: "round (22050 * (1 / 100) :: real) = 221" by (simp add: round_def)
  have "(\<Sum>j = 0..<111. \<bar>(replicate 110 0 @ [1 :: real]) ! j\<bar>) =
        (\<Sum>j = 0..<110. \<bar>(replicate 110 0 @ [1 :: real]) ! j\<bar>) + \<bar>(replicate 110 0 @ [1 :: real]) ! 110\<bar>"
    by (simp add: sum.atLeast0_lessThan_Suc[of _ 110, simplified])
  then have o: "(\<Sum>j = 0..<111. \<bar>(replicate 110 0 @ [1 :: real]) ! j\<bar>) = 1"
    unfolding z by (simp add: nth_append)
  have s: "specEnvelope 22050 (replicate 110 0 @ [1]) 0 = 1 / 111"
    unfolding specEnvelope_def Let_def r by (simp add: o ceiling_def)
  from c s show ?thesis by simp
qed

text \<open>
  C8 (amended): the envelope has the length of the input. With the window width
  \<open>w = floor(sampleRate * 0.01)\<close> even, \<open>w = 2h\<close>, every entry \<open>i\<close> is a non-negative
  number: the mean absolute value of the samples at the indices \<open>j\<close> with
  \<open>max(0, i - h) \<le> j < min(length, i + h)\<close>, and 0 if there is no such index. (For an odd
  width the loop index is not an integer once \<open>i\<close> exceeds \<open>h\<close>, see \<open>envelopeAt_odd\<close>;
  the amended statement says nothing about it.)
\<close>

theorem calculateEnvelope_spec:
  "length (calculateEnvelope sr a) = length a \<and>
   (\<lfloor>sr * (1 / 100)\<rfloor> = 2 * h \<longrightarrow>
      (\<forall>i<length a.
         let lo = nat (max 0 (int i - h)); hi = nat (min (int (length a)) (int i + h));
             mean = (if lo < hi then (\<Sum>j = lo..<hi. \<bar>a ! j\<bar>) / real (hi - lo) else 0)
         in calculateEnvelope sr a ! i = Num mean \<and> 0 \<le> mean))"
proof (intro conjI impI allI)
  show "length (calculateEnvelope sr a) = length a" by (simp add: calculateEnvelope_def)
next
  fix i assume w: "\<lfloor>sr * (1 / 100)\<rfloor> = 2 * h" and i: "i < length a"
  have "0 \<le> (\<Sum>j = lo..<hi. \<bar>a ! j\<bar>) / real (hi - lo)" for lo hi
    by (intro divide_nonneg_nonneg sum_nonneg) simp_all
  then show "let lo = nat (max 0 (int i - h)); hi = nat (min (int (length a)) (int i + h));
             mean = (if lo < hi then (\<Sum>j = lo..<hi. \<bar>a ! j\<bar>) / real (hi - lo) else 0)
         in calculateEnvelope sr a ! i = Num mean \<and> 0 \<le> mean"
    using calculateEnvelope_even_aux[OF w i] unfolding Let_def by simp
qed

theorem calculateEnvelope_spec_witness:
  "\<lfloor>400 * (1 / 100) :: real\<rfloor> = 2 * 2 \<and> (1::nat) < length [1, - 1, 3 :: real] \<and>
   length (calculateEnvelope 400 [1, - 1, 3]) = 3 \<and>
   calculateEnvelope 400 [1, - 1, 3] ! 1 = Num (5 / 3)"
proof -
  have w: "\<lfloor>400 * (1 / 100) :: real\<rfloor> = 2 * 2" by simp
  have s: "(\<Sum>j = 0..<3. \<bar>[1, - 1, 3 :: real] ! j\<bar>) = 5"
    by (simp add: numeral_3_eq_3)
  from calculateEnvelope_spec[of 400 "[1, - 1, 3]" 2] w
  have "length (calculateEnvelope 400 [1, - 1, 3]) = 3"
    and "calculateEnvelope 400 [1, - 1, 3] ! 1 = Num (5 / 3)"
    by (simp_all add: Let_def s)
  with w show ?thesis by simp
qed

subsection \<open>Spectrogram Builder\<close>

lemma spectrogramFrame_Inr:
  "0 \<le> windowSize st \<Longrightarrow> even (windowSize st) \<Longrightarrow>
   spectrogramFrame st w a k =
     Inr (map (\<lambda>i. dbNormalize (rd (frameMagnitudes st w a k) i)) [0..<nat (windowSize st div 2)])"
  by (simp add: spectrogramFrame_def Let_def)

lemma spectrogramFrame_InrD:
  "spectrogramFrame st w a k = Inr fr \<Longrightarrow>
   0 \<le> windowSize st \<and> even (windowSize st) \<and>
   fr = map (\<lambda>i. dbNormalize (rd (frameMagnitudes st w a k) i)) [0..<nat (windowSize st div 2)]"
  by (auto simp: spectrogramFrame_def Let_def split: if_splits)

lemma collectFrames_Inr:
  "(\<And>k. k \<in> set ks \<Longrightarrow> f k = Inr (g k)) \<Longrightarrow> collectFrames f ks = Inr (map g ks)"
  by (induction ks) simp_all

lemma collectFrames_InrD:
  "collectFrames f ks = Inr frs \<Longrightarrow>
   length frs = length ks \<and> (\<forall>n<length ks. f (ks ! n) = Inr (frs ! n))"
proof (induction ks arbitrary: frs)
  case Nil
  then show ?case by simp
next
  case (Cons k ks)
  from Cons.prems obtain fr frs' where
    fk: "f k = Inr fr" and rest: "collectFrames f ks = Inr frs'" and frs: "frs = fr # frs'"
    by (auto split: sum.splits)
  from Cons.IH[OF rest] fk frs show ?case
    by (auto simp: nth_Cons')
qed

lemma numFrames_eq:
  assumes "hop \<noteq> 0"
  shows "jadd (jfloor (jdiv (Num (real n - real_of_int w)) (Num (real_of_int hop)))) (Num 1)
         = Num (of_int ((int n - w) div hop + 1))"
proof -
  have "real n - real_of_int w = real_of_int (int n - w)" by simp
  then have "\<lfloor>(real n - real_of_int w) / real_of_int hop\<rfloor> = (int n - w) div hop"
    by (simp only: floor_divide_of_int_eq)
  with assms show ?thesis by simp
qed

lemma generateSpectrogram_Inr:
  assumes "0 \<le> windowSize st" "even (windowSize st)" "hopSize st \<noteq> 0"
  shows "generateSpectrogram st w a =
     Inr (map (\<lambda>k. map (\<lambda>i. dbNormalize (rd (frameMagnitudes st w a k) i))
                      [0..<nat (windowSize st div 2)])
            [0..<nat ((int (length a) - windowSize st) div hopSize st + 1)])"
  unfolding generateSpectrogram_def Let_def numFrames_eq[OF assms(3)]
  by (simp add: collectFrames_Inr spectrogramFrame_Inr[OF assms(1,2)])

lemma generateSpectrogram_InrD:
  assumes "generateSpectrogram st w a = Inr sg" "k < length sg"
  shows "spectrogramFrame st w a k = Inr (sg ! k)"
proof -
  let ?nf = "jadd (jfloor (jdiv (Num (real (length a) - real_of_int (windowSize st)))
                               (Num (real_of_int (hopSize st))))) (Num 1)"
  show ?thesis
  proof (cases ?nf)
    case (Num x)
    with assms(1) have c: "collectFrames (spectrogramFrame st w a) [0..<nat \<lfloor>x\<rfloor>] = Inr sg"
      by (simp add: generateSpectrogram_def Let_def del: jdiv.simps jadd.simps jfloor.simps)
    from collectFrames_InrD[OF c] assms(2) show ?thesis by auto
  next
    case PInf
    with assms(1) show ?thesis
      by (simp add: generateSpectrogram_def Let_def del: jdiv.simps jadd.simps jfloor.simps split: sum.splits)
  next
    case NInf
    with assms show ?thesis
      by (simp add: generateSpectrogram_def Let_def del: jdiv.simps jadd.simps jfloor.simps)
  next
    case NaN
    with assms show ?thesis
      by (simp add: generateSpectrogram_def Let_def del: jdiv.simps jadd.simps jfloor.simps)
  qed
qed

lemma generateSpectrogram_empty:
  assumes "0 < windowSize st" "0 < hopSize st"
  shows "generateSpectrogram st w [] = Inr []"
proof -
  from assms(2) have h: "hopSize st \<noteq> 0" by simp
  from assms have "(- windowSize st) div hopSize st < 0"
    by (simp add: div_neg_pos_less0)
  then have "nat ((int (length ([]::real list)) - windowSize st) div hopSize st + 1) = 0" by simp
  then show ?thesis
    unfolding generateSpectrogram_def Let_def numFrames_eq[OF h] by simp
qed

text \<open>
  C6: for every input of \<open>sampleCount \<ge> windowSize\<close> samples the spectrogram holds
  \<open>floor((sampleCount - windowSize) / hopSize) + 1\<close> frames, each of \<open>windowSize / 2\<close> entries.
  The settings are those the specification admits: a positive hop and an even window
  length (the FFT asks for a power of two).
\<close>

theorem generateSpectrogram_frames:
  assumes "windowSize st \<le> int (length a)" and "0 < hopSize st"
    and "0 \<le> windowSize st" and "even (windowSize st)"
  shows "\<exists>sg. generateSpectrogram st w a = Inr sg \<and>
           int (length sg) = (int (length a) - windowSize st) div hopSize st + 1 \<and>
           (\<forall>fr\<in>set sg. int (length fr) = windowSize st div 2)"
proof -
  from assms(2) have h: "hopSize st \<noteq> 0" by simp
  from assms(1,2) have "0 \<le> (int (length a) - windowSize st) div hopSize st"
    by (simp add: pos_imp_zdiv_nonneg_iff)
  moreover from assms(3) have "0 \<le> windowSize st div 2" by simp
  ultimately show ?thesis
    unfolding generateSpectrogram_Inr[OF assms(3,4) h] by auto
qed

theorem generateSpectrogram_frames_witness:
  "windowSize \<lparr>fftSize = 2, windowSize = 2, hopSize = 1, minFreq = 1, maxFreq = 8,
                harmonicThreshold = 1 / 10, noiseFloor = - 60\<rparr> \<le> int (length [1, 1, 1 :: real]) \<and>
   (\<exists>sg. generateSpectrogram \<lparr>fftSize = 2, windowSize = 2, hopSize = 1, minFreq = 1, maxFreq = 8,
                harmonicThreshold = 1 / 10, noiseFloor = - 60\<rparr> [Num (3 / 50000), Num (3 / 50000)] [1, 1, 1] = Inr sg \<and>
         length sg = 2 \<and> length (sg ! 0) = 1 \<and> length (sg ! 1) = 1)"
proof -
  let ?st = "\<lparr>fftSize = 2, windowSize = 2, hopSize = 1, minFreq = 1, maxFreq = 8,
                harmonicThreshold = 1 / 10, noiseFloor = - 60\<rparr>"
  have "windowSize ?st \<le> int (length [1, 1, 1 :: real])" "0 < hopSize ?st" "0 \<le> windowSize ?st"
    "even (windowSize ?st)" by simp_all
  from generateSpectrogram_frames[OF this, of "[Num (3 / 50000), Num (3 / 50000)]"]
  obtain sg where sg: "generateSpectrogram ?st [Num (3 / 50000), Num (3 / 50000)] [1, 1, 1] = Inr sg"
     "length sg = 2" "\<forall>fr\<in>set sg. length fr = 1"
    by auto
  then have "length (sg ! 0) = 1" "length (sg ! 1) = 1" by simp_all
  with sg show ?thesis by auto
qed

lemma dbNormalize_Num:
  "dbNormalize (Num m) = Num (max 0 ((20 * log 10 (max m (1 / 10 ^ 10)) + 100) / 100))"
proof -
  have p: "0 < max m (1 / 10 ^ 10)" by (simp add: less_max_iff_disj)
  have j: "jmax (Num m) (Num (1 / 10 ^ 10)) = Num (max m (1 / 10 ^ 10))"
    by (simp add: jmax_def max_def)
  have k: "jmax (Num 0) (Num y) = Num (max 0 y)" for y
    by (simp add: jmax_def max_def)
  show ?thesis
    unfolding dbNormalize_def Let_def j using p by (simp add: k)
qed

lemma dbNormalize_NaN: "dbNormalize NaN = NaN"
  by (simp add: dbNormalize_def jmax_def)

lemma dbNormalize_le_1:
  "max 0 ((20 * log 10 (max m (1 / 10 ^ 10)) + 100) / 100) \<le> (1::real) \<longleftrightarrow> m \<le> 1"
proof -
  have p: "0 < max m (1 / 10 ^ 10)" by (simp add: less_max_iff_disj)
  have "max 0 ((20 * log 10 (max m (1 / 10 ^ 10)) + 100) / 100) \<le> (1::real)
        \<longleftrightarrow> log 10 (max m (1 / 10 ^ 10)) \<le> 0" by auto
  also have "\<dots> \<longleftrightarrow> max m (1 / 10 ^ 10) \<le> 1"
    using p by (simp add: log_le_zero_cancel_iff)
  also have "\<dots> \<longleftrightarrow> m \<le> 1" by simp
  finally show ?thesis .
qed

lemma jlt_dbNormalize:
  "1 < m \<Longrightarrow> jlt (Num 1) (dbNormalize (Num m))"
  using dbNormalize_le_1[of m] by (simp add: dbNormalize_Num del: max.bounded_iff)

lemma cos_thirds: "cos (4 * pi / 3) = - 1 / 2" "cos (8 * pi / 3) = - 1 / 2"
  "cos (4 * pi) = 1" "cos (6 * pi) = 1"
proof -
  have e1: "4 * pi / 3 = pi / 3 + pi" by (simp add: field_simps)
  have "cos (pi / 3 + pi) = - cos (pi / 3)" by (rule cos_periodic_pi)
  then show "cos (4 * pi / 3) = - 1 / 2" unfolding e1 cos_60 by simp
  have e2: "8 * pi / 3 = 2 * pi / 3 + 2 * pi" by (simp add: field_simps)
  have "cos (2 * pi / 3 + 2 * pi) = cos (2 * pi / 3)" by (rule cos_periodic)
  then show "cos (8 * pi / 3) = - 1 / 2" unfolding e2 cos_120 .
  have e3: "4 * pi = 2 * pi + 2 * pi" by simp
  have "cos (2 * pi + 2 * pi) = cos (2 * pi)" by (rule cos_periodic)
  then show c4: "cos (4 * pi) = 1" unfolding e3 cos_two_pi .
  have e4: "6 * pi = 4 * pi + 2 * pi" by simp
  have "cos (4 * pi + 2 * pi) = cos (4 * pi)" by (rule cos_periodic)
  then show "cos (6 * pi) = 1" unfolding e4 c4 .
qed

lemma createWindow_4:
  "createWindow 4 = Inr [Num (3 / 50000), Num (20823 / 40000), Num (20823 / 40000), Num (3 / 50000)]"
  by (simp add: createWindow_def windowCoeff_def Let_def jsub_def upt4 cos_120 cos_thirds)

lemma windowedFrame_ones4:
  "windowSize st = 4 \<Longrightarrow>
   windowedFrame st [Num p, Num q, Num r, Num s] [1, 1, 1, 1] 0 = [Num p, Num q, Num r, Num s]"
  by (simp add: windowedFrame_def Let_def upt4 rdSample_def rd_def)

lemma frameMagnitudes_ones4:
  assumes "windowSize st = 4"
  shows "rd (frameMagnitudes st [Num p, Num q, Num r, Num s] [1, 1, 1, 1] 0) 0 = Num \<bar>p + r + (q + s)\<bar>"
proof -
  obtain re im where f: "fft [Num p, Num q, Num r, Num s] = (re, im)"
    by (cases "fft [Num p, Num q, Num r, Num s]")
  with fft4_bin0[of p q r s] have b: "re ! 0 = Num (p + r + (q + s))" "im ! 0 = Num 0" by simp_all
  have l: "length re = 4 \<and> length im = 4"
    using fft_lengthD[OF f] by simp
  show ?thesis
    unfolding frameMagnitudes_def windowedFrame_ones4[OF assms] f
    using b l by (simp add: getMagnitudeSpectrum_def rd_def)
qed

lemma frameMagnitudes_num:
  assumes W: "windowSize st = 2 ^ e" "0 < e" and hop: "0 \<le> hopSize st"
    and cw: "createWindow (windowSize st) = Inr w" and i: "i < nat (windowSize st div 2)"
  shows "\<exists>m. 0 \<le> m \<and> rd (frameMagnitudes st w a k) i = Num m"
proof -
  have W2: "2 \<le> windowSize st" using W by (cases e) simp_all
  have nW: "nat (windowSize st) = 2 ^ e" using W(1) by (simp add: nat_power_eq)
  from cw W2 have w: "w = map (windowCoeff (windowSize st)) [0..<nat (windowSize st)]"
    by (simp add: createWindow_def)
  have wn: "isNum (rd w n)" if "n < nat (windowSize st)" for n
    using that by (simp add: w rd_def windowCoeff_Num[OF W2])
  have start: "0 \<le> int k * hopSize st" using hop by simp
  have fr: "list_all isNum (windowedFrame st w a k)"
    unfolding windowedFrame_def Let_def list_all_iff
  proof
    fix x
    assume "x \<in> set (map (\<lambda>i. if int k * hopSize st + int i < int (length a)
                   then jmul (rdSample a (int k * hopSize st + int i)) (rd w i)
                   else Num 0) [0..<nat (windowSize st)])"
    then obtain n where n: "n < nat (windowSize st)"
      and x: "x = (if int k * hopSize st + int n < int (length a)
                   then jmul (rdSample a (int k * hopSize st + int n)) (rd w n)
                   else Num 0)" by auto
    show "isNum x"
    proof (cases "int k * hopSize st + int n < int (length a)")
      case True
      with start have "isNum (rdSample a (int k * hopSize st + int n))"
        by (simp add: rdSample_def)
      with True show ?thesis unfolding x using wn[OF n] by (simp add: isNum_arith del: jmul.simps)
    next
      case False
      then show ?thesis unfolding x by simp
    qed
  qed
  have len: "length (windowedFrame st w a k) = 2 ^ e"
    by (simp add: windowedFrame_def Let_def nW)
  obtain re im where f: "fft (windowedFrame st w a k) = (re, im)"
    by (cases "fft (windowedFrame st w a k)")
  from fft_num[OF len W(2) fr] f
  have l: "length re = 2 ^ e" "length im = 2 ^ e" and n: "list_all isNum re" "list_all isNum im"
    by (simp_all add: numState_def)
  have "nat (windowSize st div 2) = nat (windowSize st) div 2"
    by (simp add: nat_div_distrib)
  with i nW have i2: "i < 2 ^ e div 2" by simp
  then have ie: "i < 2 ^ e" by simp
  from n l ie have "isNum (re ! i)" "isNum (im ! i)" by (simp_all add: list_all_length)
  then obtain x y where xy: "re ! i = Num x" "im ! i = Num y"
    by (cases "re ! i"; cases "im ! i") simp_all
  have nn: "\<not> x * x + y * y < 0" by (simp add: not_less)
  have "rd (frameMagnitudes st w a k) i = Num (sqrt (x * x + y * y))"
    using i2 l ie xy nn by (simp add: frameMagnitudes_def f getMagnitudeSpectrum_def rd_def)
  then show ?thesis by (intro exI[of _ "sqrt (x * x + y * y)"]) simp
qed

text \<open>
  C5: every spectrogram value should lie in \<open>[0,1]\<close>; the comment of the source says
  \<open>Normalize to 0-1\<close> too. The source clamps at 0 only: four samples of 1.0 under the
  window of length 4 give the first bin the magnitude 1.04127, which is above 0 dB, and
  the value is above 1.
\<close>

theorem spectrogram_above_1:
  "createWindow 4 = Inr [Num (3 / 50000), Num (20823 / 40000), Num (20823 / 40000), Num (3 / 50000)] \<and>
   \<not> isl (generateSpectrogram
            \<lparr>fftSize = 4, windowSize = 4, hopSize = 4, minFreq = 20, maxFreq = 20000,
              harmonicThreshold = 1 / 10, noiseFloor = - 60\<rparr>
            [Num (3 / 50000), Num (20823 / 40000), Num (20823 / 40000), Num (3 / 50000)]
            [1, 1, 1, 1]) \<and>
   jlt (Num 1)
     (projr (generateSpectrogram
            \<lparr>fftSize = 4, windowSize = 4, hopSize = 4, minFreq = 20, maxFreq = 20000,
              harmonicThreshold = 1 / 10, noiseFloor = - 60\<rparr>
            [Num (3 / 50000), Num (20823 / 40000), Num (20823 / 40000), Num (3 / 50000)]
            [1, 1, 1, 1]) ! 0 ! 0)"
proof -
  let ?st = "\<lparr>fftSize = 4, windowSize = 4, hopSize = 4, minFreq = 20, maxFreq = 20000,
              harmonicThreshold = 1 / 10, noiseFloor = - 60\<rparr>"
  let ?w = "[Num (3 / 50000), Num (20823 / 40000), Num (20823 / 40000), Num (3 / 50000)]"
  have w4: "windowSize ?st = 4" by simp
  have g: "generateSpectrogram ?st ?w [1, 1, 1, 1] =
     Inr (map (\<lambda>k. map (\<lambda>i. dbNormalize (rd (frameMagnitudes ?st ?w [1, 1, 1, 1] k) i))
                      [0..<nat (windowSize ?st div 2)])
            [0..<nat ((int (length [1, 1, 1, 1 :: real]) - windowSize ?st) div hopSize ?st + 1)])"
    by (rule generateSpectrogram_Inr) simp_all
  have m: "rd (frameMagnitudes ?st ?w [1, 1, 1, 1] 0) 0 = Num (104127 / 100000)"
    unfolding frameMagnitudes_ones4[OF w4] by simp
  have v: "projr (generateSpectrogram ?st ?w [1, 1, 1, 1]) ! 0 ! 0 = dbNormalize (Num (104127 / 100000))"
    unfolding g by (simp add: m upt_rec del: upt_Suc)
  have "jlt (Num 1) (dbNormalize (Num (104127 / 100000)))"
    by (rule jlt_dbNormalize) simp
  with v g createWindow_4 show ?thesis by simp
qed

text \<open>
  What the source does compute: every value of every spectrogram frame is
  \<open>max(0, (20 log10(max(mag, 1e-10)) + 100) / 100)\<close> for the magnitude \<open>mag\<close> of the frame's
  transform at that bin, and \<open>NaN\<close> where that magnitude is \<open>NaN\<close>. A value is never below
  0, and it is at most 1 exactly when \<open>mag \<le> 1\<close>: there is no upper clamp. When
  \<open>windowSize\<close> is a power of two (at least 2) and \<open>hopSize\<close> is positive, every magnitude
  is a finite number and so is every value.
\<close>

theorem spectrogram_values:
  assumes "createWindow (windowSize st) = Inr w"
    and "generateSpectrogram st w a = Inr sg"
    and "k < length sg" and "i < length (sg ! k)"
  shows "((rd (frameMagnitudes st w a k) i = NaN \<and> sg ! k ! i = NaN) \<or>
          (\<exists>m. rd (frameMagnitudes st w a k) i = Num m \<and>
               sg ! k ! i = Num (max 0 ((20 * log 10 (max m (1 / 10 ^ 10)) + 100) / 100)) \<and>
               0 \<le> max 0 ((20 * log 10 (max m (1 / 10 ^ 10)) + 100) / 100) \<and>
               (max 0 ((20 * log 10 (max m (1 / 10 ^ 10)) + 100) / 100) \<le> 1 \<longleftrightarrow> m \<le> 1))) \<and>
         ((\<exists>e. 0 < e \<and> windowSize st = 2 ^ e) \<and> 0 < hopSize st \<longrightarrow>
          (\<exists>m. 0 \<le> m \<and> rd (frameMagnitudes st w a k) i = Num m \<and>
               sg ! k ! i = Num (max 0 ((20 * log 10 (max m (1 / 10 ^ 10)) + 100) / 100))))"
    (is "?A \<and> (?H \<longrightarrow> ?B)")
proof -
  from generateSpectrogram_InrD[OF assms(2,3)]
  have fr: "spectrogramFrame st w a k = Inr (sg ! k)" .
  from spectrogramFrame_InrD[OF fr]
  have e: "sg ! k = map (\<lambda>i. dbNormalize (rd (frameMagnitudes st w a k) i))
                      [0..<nat (windowSize st div 2)]" by simp
  with assms(4) have il: "i < nat (windowSize st div 2)" by simp
  with e have v: "sg ! k ! i = dbNormalize (rd (frameMagnitudes st w a k) i)" by simp
  have "finiteOrNaN (rd (frameMagnitudes st w a k) i)"
    by (intro rd_all[OF closedArith_finiteOrNaN] frameMagnitudes_finiteOrNaN
        createWindow_finiteOrNaN[OF assms(1)])
  then consider "rd (frameMagnitudes st w a k) i = NaN"
    | m where "rd (frameMagnitudes st w a k) i = Num m"
    by (cases "rd (frameMagnitudes st w a k) i") simp_all
  then have first: ?A
  proof cases
    case 1
    with v show ?thesis by (simp add: dbNormalize_NaN)
  next
    case (2 m)
    with v dbNormalize_le_1[of m] show ?thesis
      by (simp add: dbNormalize_Num del: max.bounded_iff)
  qed
  have second: ?B if ?H
  proof -
    from that obtain e where e: "0 < e" "windowSize st = 2 ^ e" and h: "0 \<le> hopSize st" by auto
    from frameMagnitudes_num[OF e(2,1) h assms(1) il, of a k]
    obtain m where m: "0 \<le> m" "rd (frameMagnitudes st w a k) i = Num m" by blast
    from v m(2) have "sg ! k ! i = Num (max 0 ((20 * log 10 (max m (1 / 10 ^ 10)) + 100) / 100))"
      by (simp only: dbNormalize_Num)
    with m show ?thesis by (intro exI[of _ m] conjI)
  qed
  show ?thesis
  proof (intro conjI impI)
    show ?A by (rule first)
    show ?B if ?H by (rule second[OF that])
  qed
qed

theorem spectrogram_values_witness:
  "createWindow 4 = Inr [Num (3 / 50000), Num (20823 / 40000), Num (20823 / 40000), Num (3 / 50000)] \<and>
   (\<exists>sg. generateSpectrogram
            \<lparr>fftSize = 4, windowSize = 4, hopSize = 4, minFreq = 20, maxFreq = 20000,
              harmonicThreshold = 1 / 10, noiseFloor = - 60\<rparr>
            [Num (3 / 50000), Num (20823 / 40000), Num (20823 / 40000), Num (3 / 50000)]
            [1, 1, 1, 1] = Inr sg \<and> 0 < length sg \<and> 0 < length (sg ! 0) \<and>
         sg ! 0 ! 0 = Num (max 0 ((20 * log 10 (max (104127 / 100000) (1 / 10 ^ 10)) + 100) / 100)))"
proof -
  let ?st = "\<lparr>fftSize = 4, windowSize = 4, hopSize = 4, minFreq = 20, maxFreq = 20000,
              harmonicThreshold = 1 / 10, noiseFloor = - 60\<rparr>"
  let ?w = "[Num (3 / 50000), Num (20823 / 40000), Num (20823 / 40000), Num (3 / 50000)]"
  have w4: "windowSize ?st = 4" by simp
  have cw: "createWindow (windowSize ?st) = Inr ?w" using createWindow_4 by simp
  have g: "generateSpectrogram ?st ?w [1, 1, 1, 1] =
     Inr (map (\<lambda>k. map (\<lambda>i. dbNormalize (rd (frameMagnitudes ?st ?w [1, 1, 1, 1] k) i))
                      [0..<nat (windowSize ?st div 2)])
            [0..<nat ((int (length [1, 1, 1, 1 :: real]) - windowSize ?st) div hopSize ?st + 1)])"
    by (rule generateSpectrogram_Inr) simp_all
  then obtain sg where sg: "generateSpectrogram ?st ?w [1, 1, 1, 1] = Inr sg"
    and l: "0 < length sg" "0 < length (sg ! 0)"
    by (simp add: upt_rec del: upt_Suc)
  have m: "rd (frameMagnitudes ?st ?w [1, 1, 1, 1] 0) 0 = Num (104127 / 100000)"
    unfolding frameMagnitudes_ones4[OF w4] by simp
  from spectrogram_values[OF cw sg l] m
  obtain x where x: "Num (104127 / 100000) = Num x"
    "sg ! 0 ! 0 = Num (max 0 ((20 * log 10 (max x (1 / 10 ^ 10)) + 100) / 100))"
    by auto
  from x(1) have "x = 104127 / 100000" by (simp only: jsnum.inject)
  with x(2)
  have "sg ! 0 ! 0 = Num (max 0 ((20 * log 10 (max (104127 / 100000) (1 / 10 ^ 10)) + 100) / 100))"
    by (simp only:)
  with sg l createWindow_4 show ?thesis by blast
qed

subsection \<open>Analysis Orchestrator\<close>

lemma analyze_InrD:
  assumes "analyze p = Inr r"
  shows "\<exists>a. mixdown (channels (audioBuffer p)) = Inr a \<and> 0 \<le> fftSize (settings p) \<and>
           spectralFeatures r = findPeaks (settings p) (centreSpectrum p a) (sampleRate (audioBuffer p)) \<and>
           harmonics r = detectHarmonics (spectralFeatures r) \<and>
           fundamentalFreq r = selectFundamental (settings p) (harmonics r) (spectralFeatures r) \<and>
           rmsLevel r = jsqrt (jdiv (Num (fold (\<lambda>x acc. acc + \<bar>x\<bar> * \<bar>x\<bar>) a 0)) (Num (real (length a)))) \<and>
           peakLevel r = fold (\<lambda>x pk. max pk \<bar>x\<bar>) a 0 \<and>
           envelope r = calculateEnvelope (sampleRate (audioBuffer p)) a \<and>
           generateSpectrogram (settings p) (windowFunction p) a = Inr (spectrogram r)"
  using assms
  by (auto simp: analyze_def Let_def split: sum.splits if_splits simp del: jdiv.simps)

lemma analyze_Inr_iff:
  "(\<exists>r. analyze p = Inr r) \<longleftrightarrow>
     (\<exists>a sg. mixdown (channels (audioBuffer p)) = Inr a \<and> 0 \<le> fftSize (settings p) \<and>
        generateSpectrogram (settings p) (windowFunction p) a = Inr sg)"
  by (auto simp: analyze_def Let_def split: sum.splits if_splits simp del: jdiv.simps)

lemma mixdown_zeros:
  assumes "chs \<noteq> []" and "\<forall>c\<in>set chs. c \<noteq> [] \<and> (\<forall>x\<in>set c. x = 0)"
  shows "\<exists>a. mixdown chs = Inr a \<and> a \<noteq> [] \<and> (\<forall>x\<in>set a. x = 0)"
proof (cases chs)
  case Nil
  with assms show ?thesis by simp
next
  case (Cons left rest)
  show ?thesis
  proof (cases rest)
    case Nil
    with Cons assms show ?thesis by (simp add: mixdown_def)
  next
    case (Cons right more')
    with \<open>chs = left # rest\<close> assms
    have l: "left \<noteq> []" "\<forall>x\<in>set left. x = 0" and r: "right \<noteq> []" "\<forall>x\<in>set right. x = 0"
      by simp_all
    have "map2 (\<lambda>l r. (l + r) / 2) left right \<noteq> []"
      using l(1) r(1) by (cases left; cases right) simp_all
    moreover have "\<forall>x\<in>set (map2 (\<lambda>l r. (l + r) / 2) left right). x = 0"
    proof
      fix x assume "x \<in> set (map2 (\<lambda>l r. (l + r) / 2) left right)"
      then obtain u v where uv: "(u, v) \<in> set (zip left right)" "x = (u + v) / 2" by auto
      from uv(1) have "u \<in> set left" "v \<in> set right"
        by (rule set_zip_leftD, rule set_zip_rightD)
      with l(2) r(2) have "u = 0" "v = 0" by blast+
      with uv(2) show "x = 0" by simp
    qed
    ultimately show ?thesis
      using Cons \<open>chs = left # rest\<close> by (simp add: mixdown_def)
  qed
qed

lemma fold_sq_zeros:
  assumes "\<forall>x\<in>set a. x = (0::real)"
  shows "fold (\<lambda>x acc. acc + \<bar>x\<bar> * \<bar>x\<bar>) a s = s" and "fold (\<lambda>x acc. acc + x * x) a s = s"
  using assms by (induction a arbitrary: s) simp_all

lemma fold_max_zeros: "\<forall>x\<in>set a. x = (0::real) \<Longrightarrow> fold (\<lambda>x pk. max pk \<bar>x\<bar>) a 0 = 0"
  by (induction a) simp_all

lemma selectFundamental_Nil: "selectFundamental st [] [] = None"
  by (simp add: selectFundamental_def)

lemma analyze_silence_aux:
  assumes a: "mixdown (channels (audioBuffer p)) = Inr a" "\<forall>x\<in>set a. x = 0"
    and sg: "generateSpectrogram (settings p) (windowFunction p) a = Inr sg"
    and f: "0 \<le> fftSize (settings p)"
  shows "\<exists>r. analyze p = Inr r \<and> spectralFeatures r = [] \<and> harmonics r = [] \<and>
           fundamentalFreq r = None \<and>
           rmsLevel r = jsqrt (jdiv (Num 0) (Num (real (length a)))) \<and> peakLevel r = 0 \<and>
           envelope r = calculateEnvelope (sampleRate (audioBuffer p)) a \<and> spectrogram r = sg"
proof -
  have fp: "findPeaks (settings p) (centreSpectrum p a) (sampleRate (audioBuffer p)) = []"
    by (rule findPeaks_zeroOrNaN[OF centreSpectrum_zeroOrNaN[OF a(2)]])
  show ?thesis
    using f
    by (simp add: analyze_def a(1) Let_def fp detectHarmonics_Nil selectFundamental_Nil sg
        fold_sq_zeros[OF a(2)] fold_max_zeros[OF a(2)] del: jdiv.simps jsqrt.simps)
qed

text \<open>
  C7: for an all-zeros input signal (of at least one sample, under settings with a
  non-negative \<open>fftSize\<close>, an even non-negative \<open>windowSize\<close> and a positive \<open>hopSize\<close>)
  \<open>analyze\<close> returns a result with empty \<open>spectralFeatures\<close>, empty \<open>harmonics\<close>,
  \<open>fundamentalFreq = null\<close>, \<open>rmsLevel = 0\<close> and \<open>peakLevel = 0\<close>. The window function of
  the processor is arbitrary: where it is too short for the analysis frame the spectrum
  is \<open>NaN\<close>, and no bin of it is a peak either.
\<close>

theorem analyze_silence:
  assumes "channels (audioBuffer p) \<noteq> []"
    and "\<forall>c\<in>set (channels (audioBuffer p)). c \<noteq> [] \<and> (\<forall>x\<in>set c. x = 0)"
    and "0 \<le> fftSize (settings p)" and "0 \<le> windowSize (settings p)"
    and "even (windowSize (settings p))" and "0 < hopSize (settings p)"
  shows "\<exists>r. analyze p = Inr r \<and> spectralFeatures r = [] \<and> harmonics r = [] \<and>
           fundamentalFreq r = None \<and> rmsLevel r = Num 0 \<and> peakLevel r = 0"
proof -
  from mixdown_zeros[OF assms(1,2)] obtain a where
    a: "mixdown (channels (audioBuffer p)) = Inr a" "a \<noteq> []" "\<forall>x\<in>set a. x = 0" by blast
  from assms(6) have h: "hopSize (settings p) \<noteq> 0" by simp
  note sg = generateSpectrogram_Inr[OF assms(4,5) h, of "windowFunction p" a]
  from a(2) have "jsqrt (jdiv (Num 0) (Num (real (length a)))) = Num 0" by simp
  with analyze_silence_aux[OF a(1,3) sg assms(3)] show ?thesis by auto
qed

theorem analyze_silence_witness:
  "\<exists>r. analyze \<lparr>audioBuffer = \<lparr>sampleRate = 44100, duration = 1 / 11025, channels = [[0, 0, 0, 0]]\<rparr>,
                 settings = \<lparr>fftSize = 8192, windowSize = 2048, hopSize = 512, minFreq = 20,
                             maxFreq = 20000, harmonicThreshold = 1 / 10, noiseFloor = - 60\<rparr>,
                 windowFunction = map (windowCoeff 2048) [0..<2048]\<rparr> = Inr r \<and>
       spectralFeatures r = [] \<and> harmonics r = [] \<and> fundamentalFreq r = None \<and>
       rmsLevel r = Num 0 \<and> peakLevel r = 0"
  by (rule analyze_silence) simp_all

lemma analyze_empty_aux:
  assumes "mixdown (channels (audioBuffer p)) = Inr []"
    and "0 \<le> fftSize (settings p)" and "0 < windowSize (settings p)" and "0 < hopSize (settings p)"
  shows "\<exists>r. analyze p = Inr r \<and> rmsLevel r = NaN \<and> peakLevel r = 0 \<and>
           spectralFeatures r = [] \<and> harmonics r = [] \<and> fundamentalFreq r = None \<and>
           envelope r = [] \<and> spectrogram r = []"
  using analyze_silence_aux[OF assms(1) _ generateSpectrogram_empty[OF assms(3,4)] assms(2)]
  by (auto simp: calculateEnvelope_def)

text \<open>
  C3, as the specification states it, asks for an \<open>EmptyInput\<close> error on a zero-length
  buffer. The source has no such error: with the default settings the caller gets a
  result, whose \<open>rmsLevel\<close> is \<open>NaN\<close> (the square root of \<open>0/0\<close>).
\<close>

theorem analyze_empty_returns:
  "\<not> isl (runAnalysis \<lparr>sampleRate = 44100, duration = 0, channels = [[]]\<rparr>
              \<lparr>fftSize = 8192, windowSize = 2048, hopSize = 512, minFreq = 20,
                maxFreq = 20000, harmonicThreshold = 1 / 10, noiseFloor = - 60\<rparr>) \<and>
   rmsLevel (projr (runAnalysis \<lparr>sampleRate = 44100, duration = 0, channels = [[]]\<rparr>
              \<lparr>fftSize = 8192, windowSize = 2048, hopSize = 512, minFreq = 20,
                maxFreq = 20000, harmonicThreshold = 1 / 10, noiseFloor = - 60\<rparr>)) = NaN"
proof -
  let ?buf = "\<lparr>sampleRate = 44100, duration = 0, channels = [[]]\<rparr>"
  let ?st = "\<lparr>fftSize = 8192, windowSize = 2048, hopSize = 512, minFreq = 20,
                maxFreq = 20000, harmonicThreshold = 1 / 10, noiseFloor = - 60\<rparr>"
  let ?p = "\<lparr>audioBuffer = ?buf, settings = ?st,
          windowFunction = map (windowCoeff (windowSize ?st)) [0..<nat (windowSize ?st)]\<rparr>"
  have "newAudioProcessor ?buf ?st = Inr ?p"
    by (rule newAudioProcessor_Inr) simp
  then have run: "runAnalysis ?buf ?st = analyze ?p"
    by (simp only: runAnalysis_def sum.case)
  have "\<exists>r. analyze ?p = Inr r \<and> rmsLevel r = NaN \<and> peakLevel r = 0 \<and>
           spectralFeatures r = [] \<and> harmonics r = [] \<and> fundamentalFreq r = None \<and>
           envelope r = [] \<and> spectrogram r = []"
    by (rule analyze_empty_aux) (simp_all add: mixdown_def)
  then obtain r where "analyze ?p = Inr r" "rmsLevel r = NaN" by blast
  with run show ?thesis by simp
qed

text \<open>
  C3 (amended): for a zero-length sample buffer \<open>analyze\<close> raises no error (with a
  non-negative \<open>fftSize\<close> and positive \<open>windowSize\<close> and \<open>hopSize\<close>): it returns an
  \<open>AnalysisResult\<close> with \<open>rmsLevel = NaN\<close>, \<open>peakLevel = 0\<close>, no spectral features, no
  harmonic series, \<open>fundamentalFreq = null\<close>, an empty envelope and an empty spectrogram.
\<close>

theorem analyze_empty_input:
  assumes "mixdown (channels (audioBuffer p)) = Inr []"
    and "0 \<le> fftSize (settings p)" and "0 < windowSize (settings p)" and "0 < hopSize (settings p)"
  shows "\<exists>r. analyze p = Inr r \<and> rmsLevel r = NaN \<and> peakLevel r = 0 \<and>
           spectralFeatures r = [] \<and> harmonics r = [] \<and> fundamentalFreq r = None \<and>
           envelope r = [] \<and> spectrogram r = []"
  using assms by (rule analyze_empty_aux)

theorem analyze_empty_input_witness:
  "\<exists>r. analyze \<lparr>audioBuffer = \<lparr>sampleRate = 44100, duration = 0, channels = [[], []]\<rparr>,
                 settings = \<lparr>fftSize = 8192, windowSize = 2048, hopSize = 512, minFreq = 20,
                             maxFreq = 20000, harmonicThreshold = 1 / 10, noiseFloor = - 60\<rparr>,
                 windowFunction = map (windowCoeff 2048) [0..<2048]\<rparr> = Inr r \<and>
       rmsLevel r = NaN \<and> peakLevel r = 0 \<and> spectralFeatures r = [] \<and> harmonics r = [] \<and>
       fundamentalFreq r = None \<and> envelope r = [] \<and> spectrogram r = []"
  by (rule analyze_empty_input) (simp_all add: mixdown_def)

text \<open>
  C9: every feature of the result's \<open>spectralFeatures\<close> has its frequency in
  \<open>[minFreq, maxFreq]\<close>, and the list is sorted by descending magnitude. This holds of
  every list the Peak Detector returns and so of the result of every analysis.
\<close>

theorem spectralFeatures_range_sorted:
  "(\<forall>f\<in>set (findPeaks st spectrum sr). minFreq st \<le> frequency f \<and> frequency f \<le> maxFreq st) \<and>
   sorted_wrt (\<lambda>a b. magnitude b \<le> magnitude a) (findPeaks st spectrum sr) \<and>
   (analyze p = Inr r \<longrightarrow>
      (\<forall>f\<in>set (spectralFeatures r).
          minFreq (settings p) \<le> frequency f \<and> frequency f \<le> maxFreq (settings p)) \<and>
      sorted_wrt (\<lambda>a b. magnitude b \<le> magnitude a) (spectralFeatures r))"
proof (intro conjI impI)
  show "\<forall>f\<in>set (findPeaks st spectrum sr). minFreq st \<le> frequency f \<and> frequency f \<le> maxFreq st"
    by (simp add: findPeaks_range)
  show "sorted_wrt (\<lambda>a b. magnitude b \<le> magnitude a) (findPeaks st spectrum sr)"
    by (rule sorted_findPeaks)
next
  assume "analyze p = Inr r"
  from analyze_InrD[OF this] obtain a where
    f: "spectralFeatures r = findPeaks (settings p) (centreSpectrum p a) (sampleRate (audioBuffer p))"
    by blast
  show "\<forall>f\<in>set (spectralFeatures r).
          minFreq (settings p) \<le> frequency f \<and> frequency f \<le> maxFreq (settings p)"
    unfolding f by (simp add: findPeaks_range)
  show "sorted_wrt (\<lambda>a b. magnitude b \<le> magnitude a) (spectralFeatures r)"
    unfolding f by (rule sorted_findPeaks)
qed

theorem spectralFeatures_range_sorted_witness:
  "findPeaks \<lparr>fftSize = 16, windowSize = 16, hopSize = 4, minFreq = 1, maxFreq = 8,
               harmonicThreshold = 1 / 10, noiseFloor = - 60\<rparr>
     [Num 0, Num 0, Num 1, Num 0, Num 0, Num 2, Num 0, Num 0] 16 =
     [\<lparr>frequency = 5, magnitude = 2, phase = 0, bandwidth = 1\<rparr>,
      \<lparr>frequency = 2, magnitude = 1, phase = 0, bandwidth = 1\<rparr>] \<and>
   sorted_wrt (\<lambda>a b. magnitude b \<le> magnitude a)
     (findPeaks \<lparr>fftSize = 16, windowSize = 16, hopSize = 4, minFreq = 1, maxFreq = 8,
               harmonicThreshold = 1 / 10, noiseFloor = - 60\<rparr>
     [Num 0, Num 0, Num 1, Num 0, Num 0, Num 2, Num 0, Num 0] 16) \<and>
   (\<exists>r. analyze \<lparr>audioBuffer = \<lparr>sampleRate = 44100, duration = 1 / 11025, channels = [[0, 0, 0, 0]]\<rparr>,
                 settings = \<lparr>fftSize = 8192, windowSize = 2048, hopSize = 512, minFreq = 20,
                             maxFreq = 20000, harmonicThreshold = 1 / 10, noiseFloor = - 60\<rparr>,
                 windowFunction = map (windowCoeff 2048) [0..<2048]\<rparr> = Inr r \<and>
        sorted_wrt (\<lambda>a b. magnitude b \<le> magnitude a) (spectralFeatures r))"
proof -
  let ?st = "\<lparr>fftSize = 16, windowSize = 16, hopSize = 4, minFreq = 1, maxFreq = 8,
               harmonicThreshold = 1 / 10, noiseFloor = - 60\<rparr>"
  let ?sp = "[Num 0, Num 0, Num 1, Num 0, Num 0, Num 2, Num 0, Num 0]"
  let ?p = "\<lparr>audioBuffer = \<lparr>sampleRate = 44100, duration = 1 / 11025, channels = [[0, 0, 0, 0]]\<rparr>,
                 settings = \<lparr>fftSize = 8192, windowSize = 2048, hopSize = 512, minFreq = 20,
                             maxFreq = 20000, harmonicThreshold = 1 / 10, noiseFloor = - 60\<rparr>,
                 windowFunction = map (windowCoeff 2048) [0..<2048]\<rparr>"
  have e: "findPeaks ?st ?sp 16 =
     [\<lparr>frequency = 5, magnitude = 2, phase = 0, bandwidth = 1\<rparr>,
      \<lparr>frequency = 2, magnitude = 1, phase = 0, bandwidth = 1\<rparr>]"
    by code_simp
  have sg: "generateSpectrogram (settings ?p) (windowFunction ?p) [0, 0, 0, 0] =
     Inr (map (\<lambda>k. map (\<lambda>i. dbNormalize (rd (frameMagnitudes (settings ?p) (windowFunction ?p) [0, 0, 0, 0] k) i))
                      [0..<nat (windowSize (settings ?p) div 2)])
            [0..<nat ((int (length [0, 0, 0, 0 :: real]) - windowSize (settings ?p)) div hopSize (settings ?p) + 1)])"
    by (rule generateSpectrogram_Inr) simp_all
  have "\<exists>r. analyze ?p = Inr r"
    unfolding analyze_Inr_iff using sg by (auto simp: mixdown_def)
  then obtain r where r: "analyze ?p = Inr r" ..
  from spectralFeatures_range_sorted[of ?st ?sp 16 ?p r] r
  have "sorted_wrt (\<lambda>a b. magnitude b \<le> magnitude a) (findPeaks ?st ?sp 16)"
    and "sorted_wrt (\<lambda>a b. magnitude b \<le> magnitude a) (spectralFeatures r)"
    by blast+
  with e r show ?thesis by blast
qed

lemma analyze_features_sorted_distinct:
  assumes "analyze p = Inr r" and "0 < sampleRate (audioBuffer p)"
  shows "sorted_wrt (\<lambda>a b. magnitude b \<le> magnitude a) (spectralFeatures r) \<and>
         distinct (spectralFeatures r) \<and>
         harmonics r = detectHarmonics (spectralFeatures r)"
proof -
  from analyze_InrD[OF assms(1)] obtain a where
    f: "spectralFeatures r = findPeaks (settings p) (centreSpectrum p a) (sampleRate (audioBuffer p))"
    and h: "harmonics r = detectHarmonics (spectralFeatures r)"
    by blast
  show ?thesis
    using h unfolding f by (simp add: sorted_findPeaks findPeaks_distinct[OF assms(2)])
qed

lemma fold_select_rev:
  "fold (\<lambda>feature ff. if lo \<le> frequency feature then Some (frequency feature) else ff)
     (rev features) acc =
   (case find (\<lambda>f. lo \<le> frequency f) features of
      Some f \<Rightarrow> Some (frequency f)
    | None \<Rightarrow> acc)"
  by (induction features arbitrary: acc) simp_all

lemma selectFundamental_no_series:
  "selectFundamental st [] features =
     map_option frequency (find (\<lambda>f. minFreq st \<le> frequency f) features)"
  by (cases features) (simp_all add: selectFundamental_def fold_select_rev split: option.splits)

lemma selectFundamental_findPeaks:
  "selectFundamental st [] (findPeaks st spectrum sr) =
     (case findPeaks st spectrum sr of [] \<Rightarrow> None | f # fs \<Rightarrow> Some (frequency f))"
proof (cases "findPeaks st spectrum sr")
  case Nil
  then show ?thesis by (simp add: selectFundamental_def)
next
  case (Cons f fs)
  then have "f \<in> set (findPeaks st spectrum sr)" by simp
  then have "minFreq st \<le> frequency f" by (simp add: findPeaks_range)
  with Cons show ?thesis by (simp add: selectFundamental_no_series)
qed

text \<open>
  C1: without a harmonic series the fundamental should be the lowest-frequency peak at
  or above \<open>minFreq\<close>, as the comment in the source says too. The source returns the
  first peak of the magnitude-sorted list, the strongest one (lemma
  \<open>selectFundamental_findPeaks\<close>): for a spectrum with a peak of magnitude 1 at 2 Hz and a
  peak of magnitude 2 at 5 Hz, without a series, it returns 5 Hz and not 2 Hz.
\<close>

theorem fundamental_is_strongest_peak:
  "map frequency
     (findPeaks \<lparr>fftSize = 16, windowSize = 16, hopSize = 4, minFreq = 1, maxFreq = 8,
                  harmonicThreshold = 1 / 10, noiseFloor = - 60\<rparr>
        [Num 0, Num 0, Num 1, Num 0, Num 0, Num 2, Num 0, Num 0] 16) = [5, 2] \<and>
   detectHarmonics
     (findPeaks \<lparr>fftSize = 16, windowSize = 16, hopSize = 4, minFreq = 1, maxFreq = 8,
                  harmonicThreshold = 1 / 10, noiseFloor = - 60\<rparr>
        [Num 0, Num 0, Num 1, Num 0, Num 0, Num 2, Num 0, Num 0] 16) = [] \<and>
   selectFundamental \<lparr>fftSize = 16, windowSize = 16, hopSize = 4, minFreq = 1, maxFreq = 8,
                  harmonicThreshold = 1 / 10, noiseFloor = - 60\<rparr>
     (detectHarmonics
       (findPeaks \<lparr>fftSize = 16, windowSize = 16, hopSize = 4, minFreq = 1, maxFreq = 8,
                  harmonicThreshold = 1 / 10, noiseFloor = - 60\<rparr>
        [Num 0, Num 0, Num 1, Num 0, Num 0, Num 2, Num 0, Num 0] 16))
     (findPeaks \<lparr>fftSize = 16, windowSize = 16, hopSize = 4, minFreq = 1, maxFreq = 8,
                  harmonicThreshold = 1 / 10, noiseFloor = - 60\<rparr>
        [Num 0, Num 0, Num 1, Num 0, Num 0, Num 2, Num 0, Num 0] 16) = Some 5"
  by code_simp

end
